theory Spec2Isabelle
  imports Complex_Main "HOL-Library.Word"
begin

section \<open>Python exceptions as values\<close>

text \<open>
  A function whose failure is of interest is modelled with the result type \<open>error + 'a\<close>:
  \<open>Inl e\<close> is the exception the call ends with, \<open>Inr v\<close> the value it returns. The
  constructors are the Python exception classes that the modelled code paths can raise.
\<close>

datatype error = TypeError | IndexError | ValueError | OverflowError

section \<open>alignment.py: the reference-to-query table\<close>

text \<open>
  The fields of \<open>mappy.Alignment\<close> that \<open>reference_to_query\<close> reads. Python integers
  are unbounded, hence \<open>int\<close>. A CIGAR entry is a pair (length, operation code), in the
  order the source unpacks it (\<open>for l, op in cigar\<close>).
\<close>

record alignment =
  r_st :: int
  r_en :: int
  q_st :: int
  strand :: int
  cigar :: "(int \<times> int) list"

text \<open>
  The output array has dtype \<open>uint32\<close> and is allocated with \<open>np.empty\<close>, which leaves
  its contents uninitialised: a slot is \<open>None\<close> until an assignment stores a value in it.
\<close>

type_synonym table = "32 word option list"

text \<open>
  \<open>ref_to_query[idx] = v\<close> on a one-dimensional array of length \<open>n\<close>. The index is
  resolved first: an index in \<open>[-n, 0)\<close> counts from the end, an index outside \<open>[-n, n)\<close>
  raises IndexError. Then the Python integer \<open>v\<close> is converted to \<open>uint32\<close>: NumPy raises
  OverflowError for a value outside the range of the type. (NumPy before version 2 raises
  only beyond the range of a C long and stores a value in between modulo \<open>2 ^ 32\<close>; every
  property below keeps the stored values within \<open>uint32\<close>, where the versions agree.)
\<close>

definition fits_uint32 :: "int \<Rightarrow> bool" where
  "fits_uint32 v = (0 \<le> v \<and> v < 2 ^ 32)"

definition setitem :: "table \<Rightarrow> int \<Rightarrow> int \<Rightarrow> error + table" where
  "setitem t idx v =
     (let n = int (length t); j = (if idx < 0 then idx + n else idx)
      in if \<not> (0 \<le> j \<and> j < n) then Inl IndexError
         else if \<not> fits_uint32 v then Inl OverflowError
         else Inr (t[nat j := Some (word_of_int v)]))"

text \<open>\<open>range(l)\<close> for a Python integer \<open>l\<close>: empty when \<open>l \<le> 0\<close>.\<close>

definition py_range :: "int \<Rightarrow> int list" where
  "py_range l = map int [0..<nat l]"

text \<open>
  The inner loops \<open>for i in range(l): ref_to_query[rpos + i] = f i\<close>, where \<open>f i\<close> is
  \<open>qpos + i\<close> for a match and \<open>qpos\<close> for a deletion. The second component of the state
  is a trace: the index of every subscript assignment the run attempts, in execution
  order. It is an observation of the run, not a variable of the program.
\<close>

fun assign_each :: "(int \<Rightarrow> int) \<Rightarrow> int \<Rightarrow> int list \<Rightarrow> table \<Rightarrow> int list
    \<Rightarrow> (error + table) \<times> int list" where
  "assign_each f rpos [] t w = (Inr t, w)"
| "assign_each f rpos (i # is) t w =
     (case setitem t (rpos + i) (f i) of
        Inl e \<Rightarrow> (Inl e, w @ [rpos + i])
      | Inr t' \<Rightarrow> assign_each f rpos is t' (w @ [rpos + i]))"

text \<open>The loop over the CIGAR entries, with the cursors \<open>rpos\<close> and \<open>qpos\<close>.\<close>

fun run_cigar :: "(int \<times> int) list \<Rightarrow> int \<Rightarrow> int \<Rightarrow> table \<Rightarrow> int list
    \<Rightarrow> (error + int \<times> int \<times> table) \<times> int list" where
  "run_cigar [] rpos qpos t w = (Inr (rpos, qpos, t), w)"
| "run_cigar ((l, op) # cs) rpos qpos t w =
     (if op = 0 \<or> op = 7 \<or> op = 8 then
        (case assign_each (\<lambda>i. qpos + i) rpos (py_range l) t w of
           (Inl e, w') \<Rightarrow> (Inl e, w')
         | (Inr t', w') \<Rightarrow> run_cigar cs (rpos + l) (qpos + l) t' w')
      else if op = 1 then run_cigar cs rpos (qpos + l) t w
      else if op = 2 then
        (case assign_each (\<lambda>i. qpos) rpos (py_range l) t w of
           (Inl e, w') \<Rightarrow> (Inl e, w')
         | (Inr t', w') \<Rightarrow> run_cigar cs (rpos + l) qpos t' w')
      else (Inl TypeError, w))"

text \<open>
  The order in which the entries are consumed (the source's local variable \<open>cigar\<close>):
  as given when \<open>strand == 1\<close>, reversed otherwise.
\<close>

definition traversal :: "alignment \<Rightarrow> (int \<times> int) list" where
  "traversal a = (if strand a = 1 then cigar a else rev (cigar a))"

text \<open>
  \<open>reference_to_query\<close> with its trace. \<open>np.empty\<close> raises ValueError for a negative
  dimension; the last assignment stores the exclusive end.
\<close>

definition reference_to_query_traced :: "alignment \<Rightarrow> (error + table) \<times> int list" where
  "reference_to_query_traced a =
     (let ref_len = r_en a - r_st a
      in if ref_len + 1 < 0 then (Inl ValueError, [])
         else (case run_cigar (traversal a) 0 (q_st a) (replicate (nat (ref_len + 1)) None) [] of
                 (Inl e, w) \<Rightarrow> (Inl e, w)
               | (Inr (rpos, qpos, t), w) \<Rightarrow> (setitem t rpos qpos, w @ [rpos])))"

definition reference_to_query :: "alignment \<Rightarrow> error + table" where
  "reference_to_query a = fst (reference_to_query_traced a)"

subsection \<open>Vocabulary for the properties of the table\<close>

text \<open>
  The operation codes the loop accepts (0 match, 1 insertion, 2 deletion, 7 sequence match,
  8 mismatch), those that advance \<open>rpos\<close> and those that advance \<open>qpos\<close>.
\<close>

definition supported :: "int \<Rightarrow> bool" where
  "supported op = (op = 0 \<or> op = 1 \<or> op = 2 \<or> op = 7 \<or> op = 8)"

definition consumes_ref :: "int \<Rightarrow> bool" where
  "consumes_ref op = (op = 0 \<or> op = 7 \<or> op = 8 \<or> op = 2)"

definition consumes_qry :: "int \<Rightarrow> bool" where
  "consumes_qry op = (op = 0 \<or> op = 7 \<or> op = 8 \<or> op = 1)"

text \<open>
  The summed lengths of the match, mismatch and deletion entries (the reference span the
  CIGAR covers) and of the match, mismatch and insertion entries (the query span).
\<close>

definition ref_consumed :: "(int \<times> int) list \<Rightarrow> int" where
  "ref_consumed cs = (\<Sum>(l, op) \<leftarrow> cs. if consumes_ref op then l else 0)"

definition qry_consumed :: "(int \<times> int) list \<Rightarrow> int" where
  "qry_consumed cs = (\<Sum>(l, op) \<leftarrow> cs. if consumes_qry op then l else 0)"

text \<open>
  A CIGAR as an aligner reports it: no negative length, every code one of the five.
\<close>

definition wf_cigar :: "(int \<times> int) list \<Rightarrow> bool" where
  "wf_cigar cs = list_all (\<lambda>(l, op). 0 \<le> l \<and> supported op) cs"

text \<open>
  The values one entry stores and the query cursor after it; the values a whole CIGAR
  stores, in the order of the slots.
\<close>

definition run_values :: "int \<Rightarrow> int \<Rightarrow> int \<Rightarrow> int list" where
  "run_values op q l = (if op = 2 then map (\<lambda>i. q) (py_range l) else map (\<lambda>i. q + i) (py_range l))"

definition run_qpos :: "int \<Rightarrow> int \<Rightarrow> int \<Rightarrow> int" where
  "run_qpos op q l = (if op = 2 then q else q + l)"

fun entries :: "(int \<times> int) list \<Rightarrow> int \<Rightarrow> int list" where
  "entries [] q = []"
| "entries ((l, op) # cs) q =
     (if op = 0 \<or> op = 7 \<or> op = 8 then map (\<lambda>i. q + i) (py_range l) @ entries cs (q + l)
      else if op = 1 then entries cs (q + l)
      else if op = 2 then map (\<lambda>i. q) (py_range l) @ entries cs q
      else [])"

text \<open>
  The CIGAR written out base by base: \<open>[(2, 0), (3, 1), (1, 2)]\<close> is
  \<open>[0, 0, 1, 1, 1, 2]\<close>. The reference positions are the bases that are not insertions;
  \<open>ref_kinds\<close> lists their codes, and \<open>ins_after\<close> lists, for each of them, how many
  inserted bases stand between it and the next reference position (or the end).
\<close>

definition cigar_bases :: "(int \<times> int) list \<Rightarrow> int list" where
  "cigar_bases cs = concat (map (\<lambda>(l, op). replicate (nat l) op) cs)"

definition ref_kinds :: "int list \<Rightarrow> int list" where
  "ref_kinds ops = filter (\<lambda>op. op \<noteq> 1) ops"

definition leading_ins :: "int list \<Rightarrow> int" where
  "leading_ins ops = int (length (takeWhile (\<lambda>op. op = 1) ops))"

fun ins_after :: "int list \<Rightarrow> int list" where
  "ins_after [] = []"
| "ins_after (op # ops) = (if op = 1 then ins_after ops else leading_ins ops # ins_after ops)"

text \<open>The query bases one reference position takes by itself: none for a deletion.\<close>

definition advance :: "int \<Rightarrow> int" where
  "advance op = (if op = 2 then 0 else 1)"

text \<open>
  The table read off the base-by-base CIGAR: each reference position gets the current
  query coordinate, the last element is the exclusive end.
\<close>

fun base_table :: "int list \<Rightarrow> int \<Rightarrow> int list" where
  "base_table [] q = [q]"
| "base_table (op # ops) q =
     (if op = 1 then base_table ops (q + 1) else q # base_table ops (q + advance op))"

text \<open>
  Two alignments used as concrete inputs: \<open>2M 3I 1D 2=\<close> and \<open>3M 2S\<close> (code 4 is a
  soft clip), each with the reference span its CIGAR covers.
\<close>

definition example_alignment :: alignment where
  "example_alignment =
     \<lparr>r_st = 10, r_en = 15, q_st = 4, strand = 1, cigar = [(2, 0), (3, 1), (1, 2), (2, 7)]\<rparr>"


section \<open>fast5.py: move table, FASTQ and signal normalisation\<close>

subsection \<open>sequence_to_signal\<close>

text \<open>
  The move table is an integer array; \<open>np.append(move_table, 1)\<close> adds one element at the
  end, and \<open>a.nonzero()[0]\<close> is the ascending array of the indices whose element is not 0.
\<close>

definition np_append :: "int list \<Rightarrow> int \<Rightarrow> int list" where
  "np_append xs v = xs @ [v]"

definition nonzero :: "int list \<Rightarrow> nat list" where
  "nonzero xs = filter (\<lambda>i. xs ! i \<noteq> 0) [0..<length xs]"

text \<open>
  The function has no \<open>raise\<close> and checks neither argument. The index array that
  \<open>nonzero\<close> returns has dtype \<open>int64\<close>, and the product and the sum are elementwise
  operations of that type, which wrap around without an error. The raw start index and the
  block stride are \<open>int64\<close> values, as the attributes of the file are.
\<close>

definition sequence_to_signal :: "int list \<Rightarrow> 64 word \<Rightarrow> 64 word \<Rightarrow> error + 64 word list" where
  "sequence_to_signal move_table raw_start_idx block_stride =
     (let move_table' = np_append move_table 1
      in Inr (map (\<lambda>i. of_nat i * block_stride + raw_start_idx) (nonzero move_table')))"

subsection \<open>parse_fastq\<close>

text \<open>
  \<open>str.strip()\<close> removes leading and trailing whitespace (the ASCII whitespace characters
  of Python: tab, line feed, vertical tab, form feed, carriage return, the separators
  \<open>0x1C\<close> to \<open>0x1F\<close>, and space); \<open>str.split('\n')\<close> cuts at every line feed and keeps
  empty pieces.
\<close>

definition is_space :: "char \<Rightarrow> bool" where
  "is_space c = (c \<in> set [CHR 0x09, CHR 0x0A, CHR 0x0B, CHR 0x0C, CHR 0x0D,
                           CHR 0x1C, CHR 0x1D, CHR 0x1E, CHR 0x1F, CHR 0x20])"

definition strip :: "string \<Rightarrow> string" where
  "strip s = rev (dropWhile is_space (rev (dropWhile is_space s)))"

fun split_on :: "char \<Rightarrow> string \<Rightarrow> string list" where
  "split_on sep [] = [[]]"
| "split_on sep (c # cs) =
     (if c = sep then [] # split_on sep cs
      else (case split_on sep cs of [] \<Rightarrow> [[c]] | p # ps \<Rightarrow> (c # p) # ps))"

text \<open>\<open>data[i]\<close> for a non-negative constant index: IndexError past the end.\<close>

definition getitem :: "'a list \<Rightarrow> nat \<Rightarrow> error + 'a" where
  "getitem xs i = (if i < length xs then Inr (xs ! i) else Inl IndexError)"

text \<open>
  A \<open>uint8\<close> array: its shape and its elements in row-major order, \<open>None\<close> for an element
  that was never initialised.
\<close>

record ndarray =
  shape :: "nat list"
  elements :: "8 word option list"

text \<open>
  The constructor \<open>np.ndarray(shape, dtype=np.uint8)\<close>: its first argument is the shape of
  the new array, whose contents are left uninitialised. It raises ValueError for more
  dimensions than NumPy supports (32; 64 from NumPy 2 on), for a negative dimension, and
  when the product of the non-zero dimensions does not fit the signed 64-bit size of an
  array. A shortage of memory at the allocation is not modelled.
\<close>

definition np_ndarray :: "int list \<Rightarrow> error + ndarray" where
  "np_ndarray dims =
     (if 32 < length dims \<or> list_ex (\<lambda>d. d < 0) dims
         \<or> 2 ^ 63 \<le> prod_list (filter (\<lambda>d. d \<noteq> 0) dims)
      then Inl ValueError
      else Inr \<lparr>shape = map nat dims, elements = replicate (prod_list (map nat dims)) None\<rparr>)"

definition ord :: "char \<Rightarrow> int" where
  "ord c = int (of_char c)"

definition parse_fastq :: "string \<Rightarrow> error + string \<times> ndarray" where
  "parse_fastq fastq =
     (let data = split_on (CHR 0x0A) (strip fastq)
      in case getitem data 1 of
           Inl e \<Rightarrow> Inl e
         | Inr sequence \<Rightarrow>
             (case getitem data 3 of
                Inl e \<Rightarrow> Inl e
              | Inr quals \<Rightarrow>
                  (case np_ndarray (map (\<lambda>c. ord c - 33) quals) of
                     Inl e \<Rightarrow> Inl e
                   | Inr qualities \<Rightarrow> Inr (sequence, qualities))))"

subsection \<open>normalize_mad\<close>

text \<open>
  Samples are modelled as real numbers: the arithmetic on finite values is exact, and
  rounding and overflow of \<open>float64\<close> are not modelled. What a division by zero produces
  is modelled: NumPy raises nothing for it (it warns), and the element becomes \<open>nan\<close> for
  \<open>0 / 0\<close> and an infinity otherwise, whose sign is not tracked.
\<close>

datatype np_float = Finite real | Infinite | NaN

definition np_divide :: "real \<Rightarrow> real \<Rightarrow> np_float" where
  "np_divide x d = (if d \<noteq> 0 then Finite (x / d) else if x = 0 then NaN else Infinite)"

text \<open>
  \<open>np.median\<close>: the middle element of the sorted samples, or the mean of the two middle
  ones; \<open>None\<close> stands for the \<open>nan\<close> it returns for an empty array.
\<close>

definition np_median :: "real list \<Rightarrow> real option" where
  "np_median xs =
     (if xs = [] then None
      else (let s = sort xs; n = length xs
            in Some (if even n then (s ! (n div 2 - 1) + s ! (n div 2)) / 2 else s ! (n div 2))))"

text \<open>
  \<open>scale_factor\<close> is optional: \<open>None\<close> is replaced by 1. An operation with \<open>nan\<close> gives
  \<open>nan\<close> in every element, which is what the branches for a missing median return.
\<close>

definition normalize_mad :: "real list \<Rightarrow> real option \<Rightarrow> error + np_float list" where
  "normalize_mad signal scale_factor =
     (let scale_factor' = (case scale_factor of None \<Rightarrow> 1 | Some s \<Rightarrow> s)
      in case np_median signal of
           None \<Rightarrow> Inr (map (\<lambda>x. NaN) signal)
         | Some med \<Rightarrow>
             (let shifted = map (\<lambda>x. x - med) signal
              in case np_median (map abs shifted) of
                   None \<Rightarrow> Inr (map (\<lambda>x. NaN) shifted)
                 | Some mad \<Rightarrow> Inr (map (\<lambda>x. np_divide x (scale_factor' * mad)) shifted)))"

text \<open>The call without the second argument uses the default of the signature.\<close>

definition normalize_mad_default :: "real list \<Rightarrow> error + np_float list" where
  "normalize_mad_default signal = normalize_mad signal (Some 1.4826)"

subsection \<open>Vocabulary for the properties of the move-table mapping and of the normaliser\<close>

text \<open>An integer that an \<open>int64\<close> holds.\<close>

definition fits_int64 :: "int \<Rightarrow> bool" where
  "fits_int64 v = (- (2 ^ 63) \<le> v \<and> v < 2 ^ 63)"

text \<open>
  The median absolute deviation of a signal, and the scale factor a call works with.
\<close>

definition mad :: "real list \<Rightarrow> real option" where
  "mad signal =
     (case np_median signal of
        None \<Rightarrow> None
      | Some med \<Rightarrow> np_median (map (\<lambda>x. \<bar>x - med\<bar>) signal))"

definition scale_of :: "real option \<Rightarrow> real" where
  "scale_of scale_factor = (case scale_factor of None \<Rightarrow> 1 | Some s \<Rightarrow> s)"

text \<open>
  FASTQ records as concrete inputs: each line ends with a line feed. The first has two
  bases, with the qualities 2 and 3; the second has 33 bases of quality 40.
\<close>

definition fastq_lines :: "string list \<Rightarrow> string" where
  "fastq_lines ls = concat (map (\<lambda>l. l @ [CHR 0x0A]) ls)"

definition short_read :: string where
  "short_read = fastq_lines [''@read1'', ''AC'', ''+'', ''#$'']"

definition long_read :: string where
  "long_read = fastq_lines [''@read2'', ''ACGTACGTACGTACGTACGTACGTACGTACGTA'', ''+'',
                            ''IIIIIIIIIIIIIIIIIIIIIIIIIIIIIIIII'']"

section \<open>utils.py: the motif index\<close>

text \<open>
  \<open>build_reference_idx\<close> hands the motif to \<open>re.finditer\<close> as a regular expression, with
  the flag \<open>re.I\<close>. The model covers the motifs that are a sequence of single-character
  items, given in parsed form: a literal character, a bracketed set such as \<open>[AG]\<close>, or
  the dot. Sequences and motifs are ASCII text, as FASTA files are.
\<close>

datatype item = Lit char | Cls "char list" | Dot

text \<open>Case folding of \<open>re.I\<close> on ASCII letters.\<close>

definition lower :: "char \<Rightarrow> char" where
  "lower c =
     (case map_of (zip ''ABCDEFGHIJKLMNOPQRSTUVWXYZ'' ''abcdefghijklmnopqrstuvwxyz'') c of
        Some d \<Rightarrow> d
      | None \<Rightarrow> c)"

text \<open>One item against one character; the dot matches everything but a line feed.\<close>

fun item_match :: "item \<Rightarrow> char \<Rightarrow> bool" where
  "item_match (Lit a) c = (lower a = lower c)"
| "item_match (Cls as) c = (lower c \<in> lower ` set as)"
| "item_match Dot c = (c \<noteq> CHR 0x0A)"

text \<open>The motif matches a prefix of the text.\<close>

fun match_here :: "item list \<Rightarrow> string \<Rightarrow> bool" where
  "match_here [] s = True"
| "match_here (it # p) [] = False"
| "match_here (it # p) (c # s) = (item_match it c \<and> match_here p s)"

text \<open>
  \<open>re.finditer\<close>: the scan looks for the first position from \<open>pos\<close> on at which the
  motif matches, reports it, and resumes at the end of that match (one character further
  after an empty match). The result is the list of \<open>m.start()\<close> in the order of the
  iteration.
\<close>

function scan :: "item list \<Rightarrow> string \<Rightarrow> nat \<Rightarrow> nat list" where
  "scan p s pos =
     (if length s < pos then []
      else if match_here p (drop pos s)
        then pos # scan p s (if p = [] then pos + 1 else pos + length p)
        else scan p s (pos + 1))"
  by pat_completeness auto
termination
  by (relation "measure (\<lambda>(p, s, pos). Suc (length s) - pos)") (auto simp: neq_Nil_conv)

declare scan.simps [simp del]

definition finditer :: "item list \<Rightarrow> string \<Rightarrow> nat list" where
  "finditer p s = scan p s 0"

text \<open>
  A record of the FASTA file as \<open>SeqIO.parse\<close> yields it: the name of the contig and its
  sequence.
\<close>

record seq_record =
  name :: string
  seq :: string

text \<open>
  \<open>Seq.reverse_complement\<close>: the sequence reversed, each letter replaced by its
  complement in the IUPAC table of DNA letters, to which Biopython adds \<open>U\<close> with the
  complement \<open>A\<close>, in either case; other characters are kept.
\<close>

definition complement :: "char \<Rightarrow> char" where
  "complement c =
     (case map_of (zip ''ACGTMRWSYKVHDBXNUacgtmrwsykvhdbxnu''
                          ''TGCAKYWSRMBDHVXNAtgcakywsrmbdhvxna'') c of
        Some d \<Rightarrow> d
      | None \<Rightarrow> c)"

definition reverse_complement :: "string \<Rightarrow> string" where
  "reverse_complement s = rev (map complement s)"

text \<open>
  The body of the loop for one record: the two sets of positions of the contig.
\<close>

definition contig_positions :: "item list \<Rightarrow> int \<Rightarrow> seq_record \<Rightarrow> int set \<times> int set" where
  "contig_positions motif rel_idx record =
     (let length' = int (length (seq record));
          fwd_pos = set (map (\<lambda>start. int start + rel_idx) (finditer motif (seq record)));
          pos_for_rev = (\<lambda>i. length' - (i + rel_idx) - 1);
          rev_pos = set (map (\<lambda>start. pos_for_rev (int start))
                      (finditer motif (reverse_complement (seq record))))
      in (fwd_pos, rev_pos))"

text \<open>
  The loop over the records: \<open>positions[contig] = (fwd_pos, rev_pos)\<close>. The dictionary is
  a map from contig names; a later record of the same name replaces the earlier entry.
\<close>

fun index_records :: "seq_record list \<Rightarrow> item list \<Rightarrow> int
    \<Rightarrow> (string \<rightharpoonup> int set \<times> int set) \<Rightarrow> (string \<rightharpoonup> int set \<times> int set)" where
  "index_records [] motif rel_idx positions = positions"
| "index_records (record # records) motif rel_idx positions =
     index_records records motif rel_idx
       (positions(name record \<mapsto> contig_positions motif rel_idx record))"

definition build_reference_idx :: "seq_record list \<Rightarrow> item list \<Rightarrow> int
    \<Rightarrow> (string \<rightharpoonup> int set \<times> int set)" where
  "build_reference_idx records motif rel_idx = index_records records motif rel_idx Map.empty"

subsection \<open>Vocabulary for the properties of the index\<close>

text \<open>A motif written as plain letters, and the motif occurring at a position of a text.\<close>

definition literal :: "string \<Rightarrow> item list" where
  "literal s = map Lit s"

definition occurs :: "item list \<Rightarrow> string \<Rightarrow> nat \<Rightarrow> bool" where
  "occurs p s i = (i \<le> length s \<and> match_here p (drop i s))"

text \<open>
  Reference files used as concrete inputs. The first has three contigs: \<open>TCGTA\<close>, whose
  reverse complement \<open>TACGA\<close> holds the motif \<open>ACGA\<close>; \<open>acgac\<close>, which holds it itself,
  in lower case;
  and \<open>TTTT\<close>. The second has the contig \<open>AAAC\<close>, in which \<open>AA\<close> occurs at the overlapping
  positions 0 and 1, and in whose reverse complement \<open>GTTT\<close> the motif \<open>TT\<close> occurs at 1
  and 2.
\<close>

definition sample_contigs :: "seq_record list" where
  "sample_contigs = [\<lparr>name = ''chr1'', seq = ''TCGTA''\<rparr>, \<lparr>name = ''chr2'', seq = ''acgac''\<rparr>,
                     \<lparr>name = ''chr3'', seq = ''TTTT''\<rparr>]"

definition overlap_contig :: "seq_record list" where
  "overlap_contig = [\<lparr>name = ''chr'', seq = ''AAAC''\<rparr>]"

section \<open>Properties of the reference-to-query table\<close>

lemma ref_consumed_simps [simp]:
  "ref_consumed [] = 0"
  "ref_consumed ((l, op) # cs) = (if consumes_ref op then l else 0) + ref_consumed cs"
  by (simp_all add: ref_consumed_def)

lemma qry_consumed_simps [simp]:
  "qry_consumed [] = 0"
  "qry_consumed ((l, op) # cs) = (if consumes_qry op then l else 0) + qry_consumed cs"
  by (simp_all add: qry_consumed_def)

lemma ref_consumed_rev: "ref_consumed (rev cs) = ref_consumed cs"
  by (simp add: ref_consumed_def rev_map [symmetric] del: rev_map)

lemma qry_consumed_rev: "qry_consumed (rev cs) = qry_consumed cs"
  by (simp add: qry_consumed_def rev_map [symmetric])

lemma ref_consumed_nonneg: "list_all (\<lambda>(l, op). 0 \<le> l) cs \<Longrightarrow> 0 \<le> ref_consumed cs"
  by (induction cs) auto

lemma qry_consumed_nonneg: "list_all (\<lambda>(l, op). 0 \<le> l) cs \<Longrightarrow> 0 \<le> qry_consumed cs"
  by (induction cs) auto

lemma assign_each_fold:
  "\<forall>i\<in>set js. 0 \<le> rpos + i \<and> rpos + i < int (length t) \<and> fits_uint32 (f i) \<Longrightarrow>
   assign_each f rpos js t w =
     (Inr (fold (\<lambda>i t. t[nat (rpos + i) := Some (word_of_int (f i))]) js t),
      w @ map (\<lambda>i. rpos + i) js)"
  by (induction js arbitrary: t w) (auto simp: setitem_def Let_def)

lemma assign_each_trace:
  "set (snd (assign_each f rpos js t w)) \<subseteq> set w \<union> (\<lambda>i. rpos + i) ` set js"
proof (induction js arbitrary: t w)
  case Nil
  then show ?case by simp
next
  case (Cons i js)
  show ?case
  proof (cases "setitem t (rpos + i) (f i)")
    case (Inl e)
    then show ?thesis by auto
  next
    case (Inr t')
    with Cons [of t' "w @ [rpos + i]"] show ?thesis by auto
  qed
qed

lemma setitem_Inr:
  "setitem t idx v = Inr t' \<Longrightarrow> 0 \<le> idx \<Longrightarrow>
   nat idx < length t \<and> t' = t[nat idx := Some (word_of_int v)]"
  by (auto simp: setitem_def Let_def split: if_splits)

lemma assign_each_Inr:
  "assign_each f rpos js t w = (Inr t', w') \<Longrightarrow> \<forall>i\<in>set js. 0 \<le> rpos + i \<Longrightarrow>
   length t' = length t \<and> w' = w @ map (\<lambda>i. rpos + i) js
   \<and> (\<forall>k<length t. t ! k \<noteq> None \<longrightarrow> t' ! k \<noteq> None)
   \<and> (\<forall>i\<in>set js. nat (rpos + i) < length t \<and> t' ! nat (rpos + i) \<noteq> None)"
proof (induction js arbitrary: t w)
  case Nil
  then show ?case by simp
next
  case (Cons i js)
  from Cons.prems(1) obtain t1 where s1: "setitem t (rpos + i) (f i) = Inr t1"
    and rest: "assign_each f rpos js t1 (w @ [rpos + i]) = (Inr t', w')"
    by (auto split: sum.splits)
  from Cons.prems(2) have nn: "0 \<le> rpos + i" and nns: "\<forall>i\<in>set js. 0 \<le> rpos + i" by simp_all
  from setitem_Inr [OF s1 nn] have lt: "nat (rpos + i) < length t"
    and t1: "t1 = t[nat (rpos + i) := Some (word_of_int (f i))]" by simp_all
  have len1: "length t1 = length t" by (simp add: t1)
  from Cons.IH [OF rest nns]
  have a: "length t' = length t1" and b: "w' = (w @ [rpos + i]) @ map (\<lambda>i. rpos + i) js"
    and c: "\<And>k. k < length t1 \<Longrightarrow> t1 ! k \<noteq> None \<Longrightarrow> t' ! k \<noteq> None"
    and d: "\<And>j. j \<in> set js \<Longrightarrow> nat (rpos + j) < length t1 \<and> t' ! nat (rpos + j) \<noteq> None"
    by blast+
  have keep: "t' ! k \<noteq> None" if "k < length t" "t ! k \<noteq> None" for k
  proof -
    have "t1 ! k \<noteq> None" using that by (cases "k = nat (rpos + i)") (simp_all add: t1)
    with c [of k] that show ?thesis by (simp add: len1)
  qed
  have here: "t' ! nat (rpos + i) \<noteq> None"
  proof -
    have "t1 ! nat (rpos + i) \<noteq> None" using lt by (simp add: t1)
    with c [of "nat (rpos + i)"] lt show ?thesis by (simp add: len1)
  qed
  from a b keep here d lt show ?case by (auto simp: len1)
qed

lemma fold_update_run:
  "r + n \<le> length t \<Longrightarrow>
   fold (\<lambda>i t. t[nat (int r + i) := g i]) (map int [0..<n]) t =
     take r t @ map (\<lambda>i. g (int i)) [0..<n] @ drop (r + n) t"
proof (induction n)
  case 0
  then show ?case by simp
next
  case (Suc n)
  then have IH: "fold (\<lambda>i t. t[nat (int r + i) := g i]) (map int [0..<n]) t =
     take r t @ map (\<lambda>i. g (int i)) [0..<n] @ drop (r + n) t" by simp
  have "nat (int r + int n) = r + n" by simp
  with Suc.prems show ?case
    apply (simp add: IH del: upt_Suc add: upt_Suc_append)
    apply (simp add: list_update_append upd_conv_take_nth_drop)
    done
qed

lemma assign_each_run:
  assumes "0 \<le> l" "int r + l \<le> int (length t)" "\<forall>i\<in>set (py_range l). fits_uint32 (f i)"
  shows "assign_each f (int r) (py_range l) t w =
     (Inr (take r t @ map (\<lambda>v. Some (word_of_int v)) (map f (py_range l)) @ drop (r + nat l) t),
      w @ map (\<lambda>i. int r + i) (py_range l))"
proof -
  have "\<forall>i\<in>set (py_range l). 0 \<le> int r + i \<and> int r + i < int (length t) \<and> fits_uint32 (f i)"
    using assms by (auto simp: py_range_def)
  moreover have "r + nat l \<le> length t" using assms by linarith
  ultimately show ?thesis
    by (simp add: assign_each_fold py_range_def fold_update_run comp_def)
qed

lemma length_py_range [simp]: "length (py_range l) = nat l"
  by (simp add: py_range_def)

lemma length_entries:
  "wf_cigar cs \<Longrightarrow> length (entries cs q) = nat (ref_consumed cs)"
proof (induction cs arbitrary: q)
  case Nil
  then show ?case by simp
next
  case (Cons c cs)
  obtain l op where c: "c = (l, op)" by (cases c)
  from Cons.prems have "0 \<le> ref_consumed cs"
    by (intro ref_consumed_nonneg) (auto simp: wf_cigar_def c list_all_iff)
  with Cons show ?case
    by (auto simp: c wf_cigar_def supported_def consumes_ref_def nat_add_distrib)
qed

lemma upt_split3: "[r..<r + (n + m)] = [r..<r + n] @ [r + n..<r + n + m]"
  using upt_add_eq_append [of r "r + n" m] by (simp add: add.assoc)

lemma map_int_shift: "map (\<lambda>i. int r + i) (map int [0..<n]) = map int [r..<r + n]"
proof -
  have "[r..<r + n] = map (\<lambda>i. i + r) [0..<n]"
    by (simp add: map_add_upt add.commute)
  then show ?thesis by (simp add: comp_def add.commute)
qed

lemma py_range_trace: "0 \<le> l \<Longrightarrow> map (\<lambda>i. int r + i) (py_range l) = map int [r..<r + nat l]"
  by (simp only: py_range_def map_int_shift)

lemma run_values_fit:
  assumes "0 \<le> q" "run_qpos op q l < 2 ^ 32" "0 \<le> l"
  shows "\<forall>v\<in>set (run_values op q l). fits_uint32 v"
  using assms by (auto simp: run_values_def run_qpos_def py_range_def fits_uint32_def)

lemma run_cigar_step:
  assumes cr: "consumes_ref op" and l: "0 \<le> l" and bound: "int r + l \<le> int (length t)"
    and fit: "\<forall>v\<in>set (run_values op q l). fits_uint32 v"
  shows "run_cigar ((l, op) # cs) (int r) q t w =
     run_cigar cs (int (r + nat l)) (run_qpos op q l)
       (take r t @ map (\<lambda>v. Some (word_of_int v)) (run_values op q l) @ drop (r + nat l) t)
       (w @ map int [r..<r + nat l])"
proof -
  have rpos: "int r + l = int (r + nat l)" using l by simp
  show ?thesis
  proof (cases "op = 2")
    case True
    with fit have "\<forall>i\<in>set (py_range l). fits_uint32 ((\<lambda>i. q) i)"
      by (simp add: run_values_def)
    with l bound have "assign_each (\<lambda>i. q) (int r) (py_range l) t w =
       (Inr (take r t @ map (\<lambda>v. Some (word_of_int v)) (map (\<lambda>i. q) (py_range l))
               @ drop (r + nat l) t), w @ map (\<lambda>i. int r + i) (py_range l))"
      by (rule assign_each_run)
    with True show ?thesis
      by (simp add: rpos run_values_def run_qpos_def py_range_trace [OF l] del: of_nat_add)
  next
    case False
    with cr have m: "op = 0 \<or> op = 7 \<or> op = 8" by (auto simp: consumes_ref_def)
    from False fit have "\<forall>i\<in>set (py_range l). fits_uint32 ((\<lambda>i. q + i) i)"
      by (simp add: run_values_def)
    with l bound have "assign_each (\<lambda>i. q + i) (int r) (py_range l) t w =
       (Inr (take r t @ map (\<lambda>v. Some (word_of_int v)) (map (\<lambda>i. q + i) (py_range l))
               @ drop (r + nat l) t), w @ map (\<lambda>i. int r + i) (py_range l))"
      by (rule assign_each_run)
    with False m show ?thesis
      by (auto simp add: rpos run_values_def run_qpos_def py_range_trace [OF l] simp del: of_nat_add)
  qed
qed

lemma run_cigar_trace:
  "list_all (\<lambda>(l, op). 0 \<le> l) cs \<Longrightarrow>
   set (snd (run_cigar cs rpos q t w)) \<subseteq> set w \<union> {rpos..<rpos + ref_consumed cs}"
proof (induction cs arbitrary: rpos q t w)
  case Nil
  then show ?case by simp
next
  case (Cons c cs)
  obtain l op where c: "c = (l, op)" by (cases c)
  from Cons.prems have l: "0 \<le> l" and wf: "list_all (\<lambda>(l, op). 0 \<le> l) cs"
    by (auto simp: c)
  from wf have nn: "0 \<le> ref_consumed cs" by (rule ref_consumed_nonneg)
  have rng: "(\<lambda>i. rpos + i) ` set (py_range l) \<subseteq> {rpos..<rpos + l}"
    by (auto simp: py_range_def)
  show ?case
  proof (cases "consumes_ref op")
    case True
    define f where "f = (if op = 2 then (\<lambda>i::int. q) else (\<lambda>i. q + i))"
    define q' where "q' = (if op = 2 then q else q + l)"
    obtain res w' where a: "assign_each f rpos (py_range l) t w = (res, w')"
      by (cases "assign_each f rpos (py_range l) t w")
    from assign_each_trace [of f rpos "py_range l" t w] a rng
    have w': "set w' \<subseteq> set w \<union> {rpos..<rpos + l}" by auto
    have unf: "run_cigar (c # cs) rpos q t w =
        (case res of Inl e \<Rightarrow> (Inl e, w') | Inr t' \<Rightarrow> run_cigar cs (rpos + l) q' t' w')"
      using True a by (auto simp: c f_def q'_def consumes_ref_def split: sum.splits)
    show ?thesis
    proof (cases res)
      case (Inl e)
      with unf w' nn True show ?thesis by (auto simp: c)
    next
      case (Inr t')
      have "set (snd (run_cigar cs (rpos + l) q' t' w'))
          \<subseteq> set w \<union> {rpos..<rpos + (l + ref_consumed cs)}"
      proof
        fix x assume "x \<in> set (snd (run_cigar cs (rpos + l) q' t' w'))"
        with Cons.IH [OF wf, of "rpos + l" q' t' w']
        have "x \<in> set w' \<or> (rpos + l \<le> x \<and> x < rpos + l + ref_consumed cs)" by auto
        with w' have "x \<in> set w \<or> (rpos \<le> x \<and> x < rpos + l)
            \<or> (rpos + l \<le> x \<and> x < rpos + l + ref_consumed cs)" by auto
        with l nn show "x \<in> set w \<union> {rpos..<rpos + (l + ref_consumed cs)}" by auto
      qed
      with unf Inr True show ?thesis by (simp add: c)
    qed
  next
    case False
    show ?thesis
    proof (cases "op = 1")
      case True
      with False Cons.IH [OF wf, of rpos "q + l" t w] show ?thesis
        by (simp add: c)
    next
      case F1: False
      with False show ?thesis by (simp add: c consumes_ref_def)
    qed
  qed
qed

lemma run_cigar_Inr:
  "run_cigar cs (int r) q t w = (Inr (rp, qp, t'), w') \<Longrightarrow> list_all (\<lambda>(l, op). 0 \<le> l) cs \<Longrightarrow>
   rp = int r + ref_consumed cs \<and> length t' = length t
   \<and> w' = w @ map int [r..<r + nat (ref_consumed cs)]
   \<and> (\<forall>k<length t. t ! k \<noteq> None \<longrightarrow> t' ! k \<noteq> None)
   \<and> (\<forall>k. r \<le> k \<and> k < r + nat (ref_consumed cs) \<longrightarrow> k < length t \<and> t' ! k \<noteq> None)"
proof (induction cs arbitrary: r q t w)
  case Nil
  then show ?case by auto
next
  case (Cons c cs)
  obtain l op where c: "c = (l, op)" by (cases c)
  from Cons.prems have l: "0 \<le> l" and wf: "list_all (\<lambda>(l, op). 0 \<le> l) cs"
    by (auto simp: c)
  from wf have nn: "0 \<le> ref_consumed cs" by (rule ref_consumed_nonneg)
  show ?case
  proof (cases "consumes_ref op")
    case True
    define f where "f = (if op = 2 then (\<lambda>i::int. q) else (\<lambda>i. q + i))"
    define q' where "q' = (if op = 2 then q else q + l)"
    define n where "n = nat l"
    define m where "m = nat (ref_consumed cs)"
    have unf: "run_cigar (c # cs) (int r) q t w =
        (case assign_each f (int r) (py_range l) t w of
           (Inl e, w1) \<Rightarrow> (Inl e, w1)
         | (Inr t1, w1) \<Rightarrow> run_cigar cs (int r + l) q' t1 w1)"
    proof (cases "op = 2")
      case op2: True
      then have "f = (\<lambda>i. q)" "q' = q" by (simp_all add: f_def q'_def)
      with op2 show ?thesis by (simp add: c split: prod.splits sum.splits)
    next
      case nop2: False
      with True have m: "op = 0 \<or> op = 7 \<or> op = 8" by (auto simp: consumes_ref_def)
      from nop2 have "f = (\<lambda>i. q + i)" "q' = q + l" by (simp_all add: f_def q'_def)
      with m show ?thesis by (auto simp: c split: prod.splits sum.splits)
    qed
    with Cons.prems(1) obtain t1 w1
      where a: "assign_each f (int r) (py_range l) t w = (Inr t1, w1)"
        and rest: "run_cigar cs (int (r + n)) q' t1 w1 = (Inr (rp, qp, t'), w')"
      using l by (auto simp: n_def split: prod.splits sum.splits)
    have "\<forall>i\<in>set (py_range l). 0 \<le> int r + i" by (auto simp: py_range_def)
    from assign_each_Inr [OF a this]
    have len1: "length t1 = length t" and w1: "w1 = w @ map (\<lambda>i. int r + i) (py_range l)"
      and keep1: "\<And>k. k < length t \<Longrightarrow> t ! k \<noteq> None \<Longrightarrow> t1 ! k \<noteq> None"
      and new1: "\<And>i. i \<in> set (py_range l) \<Longrightarrow> nat (int r + i) < length t \<and> t1 ! nat (int r + i) \<noteq> None"
      by blast+
    from Cons.IH [OF rest wf]
    have rp: "rp = int (r + n) + ref_consumed cs" and len: "length t' = length t1"
      and w': "w' = w1 @ map int [r + n..<r + n + m]"
      and keep: "\<And>k. k < length t1 \<Longrightarrow> t1 ! k \<noteq> None \<Longrightarrow> t' ! k \<noteq> None"
      and new: "\<And>k. r + n \<le> k \<Longrightarrow> k < r + n + m \<Longrightarrow> k < length t1 \<and> t' ! k \<noteq> None"
      unfolding m_def by blast+
    have refc: "ref_consumed (c # cs) = l + ref_consumed cs" using True by (simp add: c)
    have nm: "nat (ref_consumed (c # cs)) = n + m"
      using l nn by (simp add: refc n_def m_def nat_add_distrib)
    have e1: "rp = int r + ref_consumed (c # cs)" using l by (simp add: rp refc n_def)
    have e2: "length t' = length t" by (simp add: len len1)
    have e3: "w' = w @ map int [r..<r + nat (ref_consumed (c # cs))]"
      by (simp only: w' w1 py_range_trace [OF l] n_def [symmetric] nm append_assoc
          upt_split3 map_append)
    have e4: "t' ! k \<noteq> None" if "k < length t" "t ! k \<noteq> None" for k
      using keep [of k] keep1 [OF that] that by (simp add: len1)
    have e5: "k < length t \<and> t' ! k \<noteq> None" if "r \<le> k" "k < r + (n + m)" for k
    proof (cases "k < r + n")
      case True
      with that have "k - r < nat l" by (simp add: n_def)
      then have "int (k - r) \<in> int ` set [0..<nat l]" by (intro imageI) simp
      then have "int (k - r) \<in> set (py_range l)" by (simp only: py_range_def set_map)
      from new1 [OF this] that have "k < length t" "t1 ! k \<noteq> None" by simp_all
      with keep [of k] show ?thesis by (simp add: len1)
    next
      case False
      with new [of k] that show ?thesis by (simp add: len1)
    qed
    from e1 e2 e3 e4 e5 show ?thesis by (simp only: nm) blast
  next
    case False
    show ?thesis
    proof (cases "op = 1")
      case True
      with Cons.prems(1) have "run_cigar cs (int r) (q + l) t w = (Inr (rp, qp, t'), w')"
        by (simp add: c)
      from Cons.IH [OF this wf] False show ?thesis by (simp add: c)
    next
      case F1: False
      with False Cons.prems(1) show ?thesis by (simp add: c consumes_ref_def)
    qed
  qed
qed

lemma run_cigar_ok:
  "wf_cigar cs \<Longrightarrow> int r + ref_consumed cs \<le> int (length t) \<Longrightarrow>
   0 \<le> q \<Longrightarrow> q + qry_consumed cs < 2 ^ 32 \<Longrightarrow>
   run_cigar cs (int r) q t w =
     (Inr (int r + ref_consumed cs, q + qry_consumed cs,
           take r t @ map (\<lambda>v. Some (word_of_int v)) (entries cs q)
             @ drop (r + nat (ref_consumed cs)) t),
      w @ map int [r..<r + nat (ref_consumed cs)])"
proof (induction cs arbitrary: r q t w)
  case Nil
  then show ?case by simp
next
  case (Cons c cs)
  obtain l op where c: "c = (l, op)" by (cases c)
  from Cons.prems have l: "0 \<le> l" and sup: "supported op" and wf: "wf_cigar cs"
    by (auto simp: wf_cigar_def c)
  from wf have nn: "0 \<le> ref_consumed cs"
    by (intro ref_consumed_nonneg) (auto simp: wf_cigar_def list_all_iff)
  from wf have qn: "0 \<le> qry_consumed cs"
    by (intro qry_consumed_nonneg) (auto simp: wf_cigar_def list_all_iff)
  show ?case
  proof (cases "op = 1")
    case True
    with Cons.prems wf l show ?thesis
      by (simp add: c consumes_ref_def consumes_qry_def Cons.IH add.assoc)
  next
    case False
    then have cr: "consumes_ref op" using sup by (auto simp: supported_def consumes_ref_def)
    define q' where "q' = run_qpos op q l"
    define n where "n = nat l"
    define m where "m = nat (ref_consumed cs)"
    define vals :: table where "vals = map (\<lambda>v. Some (word_of_int v)) (run_values op q l)"
    define t' where "t' = take r t @ vals @ drop (r + n) t"
    have lv: "length vals = n" by (simp add: vals_def n_def run_values_def)
    have refc: "ref_consumed (c # cs) = l + ref_consumed cs" using cr by (simp add: c)
    have qryc: "q + qry_consumed (c # cs) = q' + qry_consumed cs"
      using False sup by (auto simp: c q'_def run_qpos_def consumes_qry_def supported_def)
    have ent: "entries (c # cs) q = run_values op q l @ entries cs q'"
      using False sup by (auto simp: c q'_def run_qpos_def run_values_def supported_def)
    from Cons.prems nn l have bound: "int r + l \<le> int (length t)"
      by (simp add: refc)
    then have rl: "r + n \<le> length t" using l unfolding n_def by linarith
    have len: "length t' = length t" using rl by (simp add: t'_def lv)
    have tk: "take (r + n) t' = take r t @ vals"
      using rl by (simp add: t'_def lv)
    have dr: "drop (r + (n + m)) t' = drop (r + (n + m)) t"
      using rl by (simp add: t'_def lv ac_simps)
    have nm: "nat (l + ref_consumed cs) = n + m"
      using l nn by (simp add: n_def m_def nat_add_distrib)
    have "int (r + n) + ref_consumed cs \<le> int (length t')"
      using Cons.prems l by (simp add: refc len n_def)
    moreover have q0: "0 \<le> q'" using Cons.prems(3) l by (simp add: q'_def run_qpos_def)
    moreover have qb: "q' + qry_consumed cs < 2 ^ 32" using Cons.prems(4) by (simp only: qryc)
    ultimately have IH: "run_cigar cs (int (r + n)) q' t' (w @ map int [r..<r + n]) =
       (Inr (int (r + n) + ref_consumed cs, q' + qry_consumed cs,
             take (r + n) t' @ map (\<lambda>v. Some (word_of_int v)) (entries cs q')
               @ drop (r + n + m) t'),
        (w @ map int [r..<r + n]) @ map int [r + n..<r + n + m])"
      unfolding m_def by (rule Cons.IH [OF wf])
    have "run_qpos op q l < 2 ^ 32" using qb qn by (simp add: q'_def)
    with Cons.prems(3) l have fit: "\<forall>v\<in>set (run_values op q l). fits_uint32 v"
      by (intro run_values_fit)
    have unfold: "run_cigar (c # cs) (int r) q t w
        = run_cigar cs (int (r + n)) q' t' (w @ map int [r..<r + n])"
      by (simp only: c run_cigar_step [OF cr l bound fit] q'_def t'_def vals_def n_def)
    have e1: "int (r + n) + ref_consumed cs = int r + ref_consumed (c # cs)"
      using l by (simp add: refc n_def)
    have e3: "take (r + n) t' @ map (\<lambda>v. Some (word_of_int v)) (entries cs q') @ drop (r + n + m) t'
       = take r t @ map (\<lambda>v. Some (word_of_int v)) (entries (c # cs) q)
             @ drop (r + nat (ref_consumed (c # cs))) t"
      by (simp only: tk dr ent refc nm vals_def map_append append_assoc add.assoc)
    have e4: "(w @ map int [r..<r + n]) @ map int [r + n..<r + n + m]
       = w @ map int [r..<r + nat (ref_consumed (c # cs))]"
      by (simp only: append_assoc refc nm upt_split3 map_append)
    show ?thesis
      by (simp only: unfold IH e1 e3 e4 qryc)
  qed
qed

lemma base_table_replicate_ins:
  "base_table (replicate n 1 @ ops) q = base_table ops (q + int n)"
  by (induction n arbitrary: q) (simp_all add: add.assoc)

lemma base_table_replicate_del:
  "base_table (replicate n 2 @ ops) q = replicate n q @ base_table ops q"
  by (induction n arbitrary: q) (simp_all add: advance_def)

lemma map_upt_Suc_shift: "map f [0..<Suc n] = f 0 # map (\<lambda>i. f (Suc i)) [0..<n]"
  by (simp only: upt_conv_Cons [of 0 "Suc n"] map_Suc_upt [symmetric]) (simp add: comp_def)

lemma base_table_replicate_match:
  "op \<noteq> 1 \<Longrightarrow> op \<noteq> 2 \<Longrightarrow>
   base_table (replicate n op @ ops) q = map (\<lambda>i. q + int i) [0..<n] @ base_table ops (q + int n)"
proof (induction n arbitrary: q)
  case 0
  then show ?case by simp
next
  case (Suc n)
  have "map (\<lambda>i. q + int i) [0..<Suc n] = q # map (\<lambda>i. q + 1 + int i) [0..<n]"
    by (simp only: map_upt_Suc_shift) (simp add: add.assoc)
  with Suc show ?case
    by (simp add: advance_def add.assoc del: upt_Suc)
qed

lemma cigar_bases_Cons: "cigar_bases ((l, op) # cs) = replicate (nat l) op @ cigar_bases cs"
  by (simp add: cigar_bases_def)

lemma entries_base_table:
  "wf_cigar cs \<Longrightarrow> entries cs q @ [q + qry_consumed cs] = base_table (cigar_bases cs) q"
proof (induction cs arbitrary: q)
  case Nil
  then show ?case by (simp add: cigar_bases_def)
next
  case (Cons c cs)
  obtain l op where c: "c = (l, op)" by (cases c)
  from Cons.prems have l: "0 \<le> l" and sup: "supported op" and wf: "wf_cigar cs"
    by (auto simp: wf_cigar_def c)
  note cb = cigar_bases_Cons
  from sup consider "op = 1" | "op = 2" | "op = 0 \<or> op = 7 \<or> op = 8"
    by (auto simp: supported_def)
  then show ?case
  proof cases
    case 1
    then show ?thesis
      using l Cons.IH [OF wf, of "q + l"]
      by (simp add: c cb base_table_replicate_ins consumes_qry_def add.assoc)
  next
    case 2
    then show ?thesis
      using l Cons.IH [OF wf, of q]
      by (simp add: c cb base_table_replicate_del consumes_qry_def py_range_def map_replicate_const)
  next
    case 3
    then have ne: "op \<noteq> 1" "op \<noteq> 2" by auto
    from 3 have qc: "consumes_qry op" by (auto simp: consumes_qry_def)
    have "entries (c # cs) q = map (\<lambda>i. q + int i) [0..<nat l] @ entries cs (q + l)"
      using 3 by (auto simp: c py_range_def comp_def)
    then show ?thesis
      using l qc Cons.IH [OF wf, of "q + l"]
      by (simp add: c cb base_table_replicate_match [OF ne] add.assoc)
  qed
qed

lemma length_base_table: "length (base_table ops q) = Suc (length (ref_kinds ops))"
  by (induction ops arbitrary: q) (simp_all add: ref_kinds_def)

lemma base_table_first: "base_table ops q ! 0 = q + leading_ins ops"
  by (induction ops arbitrary: q) (simp_all add: leading_ins_def)

lemma base_table_delta:
  "k < length (ref_kinds ops) \<Longrightarrow>
   base_table ops q ! Suc k - base_table ops q ! k = advance (ref_kinds ops ! k) + ins_after ops ! k"
proof (induction ops arbitrary: q k)
  case Nil
  then show ?case by (simp add: ref_kinds_def)
next
  case (Cons op ops)
  show ?case
  proof (cases "op = 1")
    case True
    with Cons show ?thesis by (simp add: ref_kinds_def)
  next
    case False
    show ?thesis
    proof (cases k)
      case 0
      with False show ?thesis by (simp add: ref_kinds_def base_table_first)
    next
      case (Suc j)
      with False Cons.prems have "j < length (ref_kinds ops)" by (simp add: ref_kinds_def)
      from Cons.IH [OF this, of "q + advance op"] False Suc show ?thesis
        by (simp add: ref_kinds_def)
    qed
  qed
qed

lemma base_table_lower: "v \<in> set (base_table ops q) \<Longrightarrow> q \<le> v"
proof (induction ops arbitrary: q)
  case Nil
  then show ?case by simp
next
  case (Cons op ops)
  then show ?case
    by (fastforce simp: advance_def split: if_splits)
qed

lemma sorted_base_table: "sorted (base_table ops q)"
proof (induction ops arbitrary: q)
  case Nil
  then show ?case by simp
next
  case (Cons op ops)
  have "q \<le> v" if "v \<in> set (base_table ops (q + advance op))" for v
    using base_table_lower [OF that] by (simp add: advance_def split: if_splits)
  with Cons show ?case by auto
qed

lemma sorted_le_last: "sorted xs \<Longrightarrow> (x::int) \<in> set xs \<Longrightarrow> x \<le> last xs"
  by (induction xs) auto

lemma wf_cigar_traversal: "wf_cigar (traversal a) = wf_cigar (cigar a)"
  by (simp add: traversal_def wf_cigar_def)

lemma ref_consumed_traversal: "ref_consumed (traversal a) = ref_consumed (cigar a)"
  by (simp add: traversal_def ref_consumed_rev)

lemma qry_consumed_traversal: "qry_consumed (traversal a) = qry_consumed (cigar a)"
  by (simp add: traversal_def qry_consumed_rev)

lemma setitem_last:
  "int (length xs) = i \<Longrightarrow> fits_uint32 v \<Longrightarrow>
   setitem (xs @ [x]) i v = Inr (xs @ [Some (word_of_int v)])"
  by (auto simp: setitem_def Let_def)

lemma reference_to_query_traced_ok:
  assumes wf: "wf_cigar (cigar a)" and span: "ref_consumed (cigar a) = r_en a - r_st a"
    and q0: "0 \<le> q_st a" and fit: "q_st a + qry_consumed (cigar a) < 2 ^ 32"
  shows "reference_to_query_traced a =
     (Inr (map (\<lambda>v. Some (word_of_int v)) (base_table (cigar_bases (traversal a)) (q_st a))),
      map int [0..<Suc (nat (r_en a - r_st a))])"
proof -
  define cs where "cs = traversal a"
  define n where "n = nat (r_en a - r_st a)"
  define t0 :: table where "t0 = replicate (Suc n) None"
  have wf': "wf_cigar cs" using wf by (simp add: cs_def wf_cigar_traversal)
  have rc: "ref_consumed cs = r_en a - r_st a" using span by (simp add: cs_def ref_consumed_traversal)
  have "0 \<le> ref_consumed cs"
    using wf' by (intro ref_consumed_nonneg) (auto simp: wf_cigar_def list_all_iff)
  then have nn: "0 \<le> r_en a - r_st a" by (simp add: rc)
  then have n: "int n = r_en a - r_st a" by (simp add: n_def)
  have alloc: "replicate (nat (r_en a - r_st a + 1)) None = t0"
    using nn by (simp add: t0_def n_def nat_add_distrib)
  have le: "\<not> r_en a - r_st a + 1 < 0" using nn by simp
  have fit': "q_st a + qry_consumed cs < 2 ^ 32" using fit by (simp add: cs_def qry_consumed_traversal)
  have "0 \<le> qry_consumed cs"
    using wf' by (intro qry_consumed_nonneg) (auto simp: wf_cigar_def list_all_iff)
  with q0 fit' have fv: "fits_uint32 (q_st a + qry_consumed cs)" by (simp add: fits_uint32_def)
  have "int 0 + ref_consumed cs \<le> int (length t0)" by (simp add: rc t0_def n [symmetric])
  moreover have "drop n t0 = [None]"
  proof -
    have "t0 = replicate n None @ [None]"
      by (simp only: t0_def replicate_append_same replicate.simps)
    then show ?thesis by simp
  qed
  ultimately have run: "run_cigar cs 0 (q_st a) t0 [] =
      (Inr (int n, q_st a + qry_consumed cs,
            map (\<lambda>v. Some (word_of_int v)) (entries cs (q_st a)) @ [None]),
       map int [0..<n])"
    using run_cigar_ok [OF wf' _ q0 fit', of 0 t0 "[]"] by (simp add: rc n [symmetric])
  have len: "int (length (map (\<lambda>v. Some (word_of_int v) :: 32 word option) (entries cs (q_st a)))) = int n"
    using wf' by (simp add: length_entries rc n [symmetric])
  have fin: "map (\<lambda>v. Some (word_of_int v)) (entries cs (q_st a)) @ [Some (word_of_int (q_st a + qry_consumed cs))]
     = map (\<lambda>v. Some (word_of_int v) :: 32 word option) (base_table (cigar_bases cs) (q_st a))"
    using entries_base_table [OF wf', of "q_st a", symmetric] by simp
  show ?thesis
    unfolding reference_to_query_traced_def Let_def cs_def [symmetric] n_def [symmetric]
    using le by (simp add: alloc run setitem_last [OF len fv] fin n_def [symmetric] del: of_int_add)
qed

lemma length_base_table_cigar:
  "wf_cigar cs \<Longrightarrow> length (base_table (cigar_bases cs) q) = Suc (nat (ref_consumed cs))"
  using arg_cong [OF entries_base_table, of cs length q] by (simp add: length_entries)

lemma length_ref_kinds_cigar:
  "wf_cigar cs \<Longrightarrow> length (ref_kinds (cigar_bases cs)) = nat (ref_consumed cs)"
  using length_base_table_cigar [of cs 0] by (simp add: length_base_table)

lemma last_base_table_cigar:
  "wf_cigar cs \<Longrightarrow> last (base_table (cigar_bases cs) q) = q + qry_consumed cs"
  using arg_cong [OF entries_base_table, of cs last q] by simp



lemma reference_to_query_trace_bound:
  assumes nn: "list_all (\<lambda>(l, op). 0 \<le> l) (cigar a)"
  shows "set (snd (reference_to_query_traced a)) \<subseteq> {0..ref_consumed (cigar a)}"
proof -
  define cs where "cs = traversal a"
  define t0 :: table where "t0 = replicate (nat (r_en a - r_st a + 1)) None"
  have nn': "list_all (\<lambda>(l, op). 0 \<le> l) cs" using nn by (simp add: cs_def traversal_def)
  have rc: "ref_consumed cs = ref_consumed (cigar a)" by (simp add: cs_def ref_consumed_traversal)
  have r0: "0 \<le> ref_consumed (cigar a)" using nn by (rule ref_consumed_nonneg)
  obtain res w where rw: "run_cigar cs 0 (q_st a) t0 [] = (res, w)" by (cases "run_cigar cs 0 (q_st a) t0 []")
  from run_cigar_trace [OF nn', of 0 "q_st a" t0 "[]"] rw
  have w: "set w \<subseteq> {0..<ref_consumed (cigar a)}" by (simp add: rc)
  show ?thesis
  proof (cases "r_en a - r_st a + 1 < 0")
    case True
    then show ?thesis by (simp add: reference_to_query_traced_def Let_def)
  next
    case False
    show ?thesis
    proof (cases res)
      case (Inl e)
      with False rw have "reference_to_query_traced a = (Inl e, w)"
        by (simp add: reference_to_query_traced_def Let_def cs_def [symmetric] t0_def [symmetric])
      with w show ?thesis by auto
    next
      case (Inr x)
      obtain rp qp t1 where x: "x = (rp, qp, t1)" by (cases x)
      from rw Inr x have run: "run_cigar cs (int 0) (q_st a) t0 [] = (Inr (rp, qp, t1), w)" by simp
      from run_cigar_Inr [OF run nn'] have rp: "rp = ref_consumed (cigar a)" by (simp add: rc)
      from False rw Inr x have "reference_to_query_traced a = (setitem t1 rp qp, w @ [rp])"
        by (simp add: reference_to_query_traced_def Let_def cs_def [symmetric] t0_def [symmetric])
      with w rp r0 show ?thesis by auto
    qed
  qed
qed

lemma reference_to_query_Inr:
  assumes nn: "list_all (\<lambda>(l, op). 0 \<le> l) (cigar a)"
    and span: "ref_consumed (cigar a) = r_en a - r_st a"
    and res: "fst (reference_to_query_traced a) = Inr t"
  shows "length t = nat (r_en a - r_st a) + 1"
    and "\<forall>k<length t. t ! k \<noteq> None \<and> int k \<in> set (snd (reference_to_query_traced a))"
proof -
  define cs where "cs = traversal a"
  define n where "n = nat (r_en a - r_st a)"
  define t0 :: table where "t0 = replicate (nat (r_en a - r_st a + 1)) None"
  have nn': "list_all (\<lambda>(l, op). 0 \<le> l) cs" using nn by (simp add: cs_def traversal_def)
  have rc: "ref_consumed cs = r_en a - r_st a" by (simp add: cs_def ref_consumed_traversal span)
  have "0 \<le> ref_consumed cs" using nn' by (rule ref_consumed_nonneg)
  then have nn0: "0 \<le> r_en a - r_st a" by (simp add: rc)
  then have n: "int n = r_en a - r_st a" and ok: "\<not> r_en a - r_st a + 1 < 0"
    by (simp_all add: n_def)
  have len0: "length t0 = Suc n" using nn0 by (simp add: t0_def n_def nat_add_distrib)
  obtain r w where rw: "run_cigar cs 0 (q_st a) t0 [] = (r, w)" by (cases "run_cigar cs 0 (q_st a) t0 []")
  have tr: "reference_to_query_traced a =
      (case r of Inl e \<Rightarrow> (Inl e, w) | Inr (rp, qp, t1) \<Rightarrow> (setitem t1 rp qp, w @ [rp]))"
    using ok rw by (simp add: reference_to_query_traced_def Let_def cs_def [symmetric]
        t0_def [symmetric] split: sum.splits)
  with res obtain rp qp t1 where r: "r = Inr (rp, qp, t1)" and st: "setitem t1 rp qp = Inr t"
    by (auto split: sum.splits)
  from rw r have run: "run_cigar cs (int 0) (q_st a) t0 [] = (Inr (rp, qp, t1), w)" by simp
  from run_cigar_Inr [OF run nn']
  have rp: "rp = int n" and len1: "length t1 = Suc n" and w: "w = map int [0..<n]"
    and new: "\<And>k. k < n \<Longrightarrow> t1 ! k \<noteq> None"
    by (simp_all add: rc n [symmetric] len0)
  from setitem_Inr [OF st] rp have t: "t = t1[n := Some (word_of_int qp)]" by simp
  have trace: "snd (reference_to_query_traced a) = map int [0..<n] @ [int n]"
    by (simp add: tr r rp w)
  show "length t = nat (r_en a - r_st a) + 1" by (simp add: t len1 n_def)
  show "\<forall>k<length t. t ! k \<noteq> None \<and> int k \<in> set (snd (reference_to_query_traced a))"
  proof (intro allI impI)
    fix k assume "k < length t"
    then have k: "k < Suc n" by (simp add: t len1)
    have "t ! k \<noteq> None"
    proof (cases "k = n")
      case True
      then show ?thesis by (simp add: t len1)
    next
      case False
      with k new [of k] show ?thesis by (simp add: t)
    qed
    moreover have "int k \<in> set (snd (reference_to_query_traced a))"
      using k unfolding trace by (cases "k = n") auto
    ultimately show "t ! k \<noteq> None \<and> int k \<in> set (snd (reference_to_query_traced a))" ..
  qed
qed

text \<open>
  Claim C2. For an alignment whose CIGAR is well formed, whose match, mismatch and deletion
  lengths sum to the declared reference span \<open>r_en - r_st\<close>, and whose query coordinates
  fit the \<open>uint32\<close> slots, \<open>reference_to_query\<close> returns a table of span + 1 unsigned
  values that is non-decreasing. The difference between slot \<open>k + 1\<close> and slot \<open>k\<close> is the
  advance of reference position \<open>k\<close> (1 for a match or mismatch, 0 for a deletion) plus the
  number of bases inserted between positions \<open>k\<close> and \<open>k + 1\<close>: it is 1 across a match
  and 0 across a deletion when no insertion follows, and it exceeds 1 only right after an
  insertion.
\<close>

theorem reference_to_query_deltas:
  assumes wf: "wf_cigar (cigar a)"
    and span: "ref_consumed (cigar a) = r_en a - r_st a"
    and q0: "0 \<le> q_st a"
    and fit: "q_st a + qry_consumed (cigar a) < 2 ^ 32"
  shows "\<exists>vs. reference_to_query a = Inr (map (\<lambda>v. Some (word_of_int v)) vs)
      \<and> length vs = nat (r_en a - r_st a) + 1
      \<and> (\<forall>v\<in>set vs. 0 \<le> v \<and> v < 2 ^ 32)
      \<and> sorted vs
      \<and> (\<forall>k<nat (r_en a - r_st a).
           vs ! Suc k - vs ! k
             = advance (ref_kinds (cigar_bases (traversal a)) ! k)
               + ins_after (cigar_bases (traversal a)) ! k
         \<and> (ref_kinds (cigar_bases (traversal a)) ! k \<in> {0, 7, 8}
              \<and> ins_after (cigar_bases (traversal a)) ! k = 0 \<longrightarrow> vs ! Suc k - vs ! k = 1)
         \<and> (ref_kinds (cigar_bases (traversal a)) ! k = 2
              \<and> ins_after (cigar_bases (traversal a)) ! k = 0 \<longrightarrow> vs ! Suc k - vs ! k = 0)
         \<and> (1 < vs ! Suc k - vs ! k \<longrightarrow> 0 < ins_after (cigar_bases (traversal a)) ! k))"
proof -
  define ops where "ops = cigar_bases (traversal a)"
  define vs where "vs = base_table ops (q_st a)"
  have wf': "wf_cigar (traversal a)" using wf by (simp add: wf_cigar_traversal)
  have res: "reference_to_query a = Inr (map (\<lambda>v. Some (word_of_int v)) vs)"
    by (simp add: reference_to_query_def reference_to_query_traced_ok [OF wf span q0 fit]
        vs_def ops_def)
  have len: "length vs = nat (r_en a - r_st a) + 1"
    using length_base_table_cigar [OF wf', of "q_st a"]
    by (simp add: vs_def ops_def ref_consumed_traversal span)
  have nk: "length (ref_kinds ops) = nat (r_en a - r_st a)"
    using length_ref_kinds_cigar [OF wf'] by (simp add: ops_def ref_consumed_traversal span)
  have srt: "sorted vs" by (simp add: vs_def sorted_base_table)
  have lst: "last vs = q_st a + qry_consumed (cigar a)"
    using last_base_table_cigar [OF wf', of "q_st a"]
    by (simp add: vs_def ops_def qry_consumed_traversal)
  have rng: "0 \<le> v \<and> v < 2 ^ 32" if "v \<in> set vs" for v
  proof -
    from that have "q_st a \<le> v" unfolding vs_def by (rule base_table_lower)
    moreover from srt that have "v \<le> last vs" by (rule sorted_le_last)
    ultimately show ?thesis using q0 fit lst by simp
  qed
  have adv: "advance op = 1" if "op \<in> {0, 7, 8}" for op
    using that by (auto simp: advance_def)
  have dl: "vs ! Suc k - vs ! k = advance (ref_kinds ops ! k) + ins_after ops ! k"
    if "k < nat (r_en a - r_st a)" for k
    unfolding vs_def using that by (intro base_table_delta) (simp add: nk)
  have adv1: "advance op \<le> 1" for op by (simp add: advance_def)
  have "\<forall>k<nat (r_en a - r_st a).
      vs ! Suc k - vs ! k = advance (ref_kinds ops ! k) + ins_after ops ! k
      \<and> (ref_kinds ops ! k \<in> {0, 7, 8} \<and> ins_after ops ! k = 0 \<longrightarrow> vs ! Suc k - vs ! k = 1)
      \<and> (ref_kinds ops ! k = 2 \<and> ins_after ops ! k = 0 \<longrightarrow> vs ! Suc k - vs ! k = 0)
      \<and> (1 < vs ! Suc k - vs ! k \<longrightarrow> 0 < ins_after ops ! k)"
  proof (intro allI impI)
    fix k assume k: "k < nat (r_en a - r_st a)"
    note d = dl [OF k]
    have a: "ref_kinds ops ! k \<in> {0, 7, 8} \<and> ins_after ops ! k = 0 \<longrightarrow> vs ! Suc k - vs ! k = 1"
      using d adv by auto
    have b: "ref_kinds ops ! k = 2 \<and> ins_after ops ! k = 0 \<longrightarrow> vs ! Suc k - vs ! k = 0"
      using d by (simp add: advance_def)
    have c: "1 < vs ! Suc k - vs ! k \<longrightarrow> 0 < ins_after ops ! k"
      using d adv1 [of "ref_kinds ops ! k"] by linarith
    from d a b c
    show "vs ! Suc k - vs ! k = advance (ref_kinds ops ! k) + ins_after ops ! k
      \<and> (ref_kinds ops ! k \<in> {0, 7, 8} \<and> ins_after ops ! k = 0 \<longrightarrow> vs ! Suc k - vs ! k = 1)
      \<and> (ref_kinds ops ! k = 2 \<and> ins_after ops ! k = 0 \<longrightarrow> vs ! Suc k - vs ! k = 0)
      \<and> (1 < vs ! Suc k - vs ! k \<longrightarrow> 0 < ins_after ops ! k)"
      by blast
  qed
  with res len rng srt show ?thesis
    unfolding ops_def by blast
qed

lemma example_alignment_hyps:
  "wf_cigar (cigar example_alignment)"
  "ref_consumed (cigar example_alignment) = r_en example_alignment - r_st example_alignment"
  "0 \<le> q_st example_alignment"
  "q_st example_alignment + qry_consumed (cigar example_alignment) < 2 ^ 32"
  by (simp_all add: example_alignment_def wf_cigar_def supported_def consumes_ref_def
      consumes_qry_def)

text \<open>
  The theorem at \<open>2M 3I 1D 2=\<close> with query start 4: six slots, and the differences
  1 (match), 4 (match followed by three inserted bases) and 0 (deletion).
\<close>

theorem reference_to_query_deltas_witness:
  "wf_cigar (cigar example_alignment)
   \<and> ref_consumed (cigar example_alignment) = r_en example_alignment - r_st example_alignment
   \<and> 0 \<le> q_st example_alignment
   \<and> q_st example_alignment + qry_consumed (cigar example_alignment) < 2 ^ 32
   \<and> (\<exists>vs. reference_to_query example_alignment = Inr (map (\<lambda>v. Some (word_of_int v)) vs)
         \<and> length vs = 6 \<and> sorted vs
         \<and> vs ! 1 - vs ! 0 = 1 \<and> vs ! 2 - vs ! 1 = 4 \<and> vs ! 3 - vs ! 2 = 0)"
proof -
  note h = example_alignment_hyps
  from reference_to_query_deltas [OF h]
  obtain vs where r: "reference_to_query example_alignment = Inr (map (\<lambda>v. Some (word_of_int v)) vs)"
    and len: "length vs = nat (r_en example_alignment - r_st example_alignment) + 1"
    and srt: "sorted vs"
    and d: "\<And>k. k < nat (r_en example_alignment - r_st example_alignment) \<Longrightarrow>
           vs ! Suc k - vs ! k
             = advance (ref_kinds (cigar_bases (traversal example_alignment)) ! k)
               + ins_after (cigar_bases (traversal example_alignment)) ! k"
    by blast
  have ops: "cigar_bases (traversal example_alignment) = [0, 0, 1, 1, 1, 2, 7, 7]"
    by (simp add: example_alignment_def traversal_def cigar_bases_def numeral_eq_Suc)
  have n: "nat (r_en example_alignment - r_st example_alignment) = 5"
    by (simp add: example_alignment_def)
  have "length vs = 6" using len by (simp add: n)
  moreover have "vs ! 1 - vs ! 0 = 1"
    using d [of 0] by (simp add: n ops ref_kinds_def advance_def leading_ins_def)
  moreover have "vs ! 2 - vs ! 1 = 4"
    using d [of 1] by (simp add: n ops ref_kinds_def advance_def leading_ins_def eval_nat_numeral)
  moreover have "vs ! 3 - vs ! 2 = 0"
    using d [of 2] by (simp add: n ops ref_kinds_def advance_def leading_ins_def eval_nat_numeral)
  ultimately show ?thesis using h r srt by blast
qed



text \<open>
  Claim C10. When no length is negative and the match, mismatch and deletion lengths sum to
  the declared reference span, every subscript assignment of the run has an index between 0
  and the span, and a table that is returned has span + 1 slots, each of them assigned by the
  run (none is left as \<open>np.empty\<close> allocated it). A table is returned whenever every
  operation code is supported and the query coordinates fit the \<open>uint32\<close> slots.
\<close>

theorem reference_to_query_writes:
  assumes nn: "list_all (\<lambda>(l, op). 0 \<le> l) (cigar a)"
    and span: "ref_consumed (cigar a) = r_en a - r_st a"
  shows "(\<forall>i\<in>set (snd (reference_to_query_traced a)). 0 \<le> i \<and> i \<le> r_en a - r_st a)
     \<and> (\<forall>t. reference_to_query a = Inr t \<longrightarrow>
           length t = nat (r_en a - r_st a) + 1
           \<and> (\<forall>k<length t. t ! k \<noteq> None \<and> int k \<in> set (snd (reference_to_query_traced a))))
     \<and> (list_all (\<lambda>(l, op). supported op) (cigar a)
           \<and> 0 \<le> q_st a \<and> q_st a + qry_consumed (cigar a) < 2 ^ 32 \<longrightarrow>
         (\<exists>t. reference_to_query a = Inr t))"
proof -
  have a: "\<forall>i\<in>set (snd (reference_to_query_traced a)). 0 \<le> i \<and> i \<le> r_en a - r_st a"
    using reference_to_query_trace_bound [OF nn] by (auto simp: span)
  have b: "\<forall>t. reference_to_query a = Inr t \<longrightarrow>
           length t = nat (r_en a - r_st a) + 1
           \<and> (\<forall>k<length t. t ! k \<noteq> None \<and> int k \<in> set (snd (reference_to_query_traced a)))"
    using reference_to_query_Inr [OF nn span] by (simp add: reference_to_query_def)
  have c: "list_all (\<lambda>(l, op). supported op) (cigar a)
           \<and> 0 \<le> q_st a \<and> q_st a + qry_consumed (cigar a) < 2 ^ 32 \<longrightarrow>
         (\<exists>t. reference_to_query a = Inr t)"
  proof
    assume h: "list_all (\<lambda>(l, op). supported op) (cigar a)
           \<and> 0 \<le> q_st a \<and> q_st a + qry_consumed (cigar a) < 2 ^ 32"
    with nn have wf: "wf_cigar (cigar a)" by (auto simp: wf_cigar_def list_all_iff)
    from h have q0: "0 \<le> q_st a" and fit: "q_st a + qry_consumed (cigar a) < 2 ^ 32" by simp_all
    from reference_to_query_traced_ok [OF wf span q0 fit]
    show "\<exists>t. reference_to_query a = Inr t" by (simp add: reference_to_query_def)
  qed
  show ?thesis by (intro conjI a b c)
qed

text \<open>The theorem at \<open>2M 3I 1D 2=\<close>: the run assigns exactly the slots 0 to 5.\<close>

theorem reference_to_query_writes_witness:
  "list_all (\<lambda>(l, op). 0 \<le> l) (cigar example_alignment)
   \<and> ref_consumed (cigar example_alignment) = r_en example_alignment - r_st example_alignment
   \<and> (\<exists>t. reference_to_query example_alignment = Inr t \<and> length t = 6 \<and> None \<notin> set t)
   \<and> set (snd (reference_to_query_traced example_alignment)) = {0..5}"
proof -
  have h1: "list_all (\<lambda>(l, op). 0 \<le> l) (cigar example_alignment)"
    and h2: "ref_consumed (cigar example_alignment) = r_en example_alignment - r_st example_alignment"
    and sup: "list_all (\<lambda>(l, op). supported op) (cigar example_alignment)
        \<and> 0 \<le> q_st example_alignment
        \<and> q_st example_alignment + qry_consumed (cigar example_alignment) < 2 ^ 32"
    and n: "nat (r_en example_alignment - r_st example_alignment) + 1 = 6"
           "r_en example_alignment - r_st example_alignment = 5"
    by (simp_all add: example_alignment_def consumes_ref_def consumes_qry_def supported_def)
  note w = reference_to_query_writes [OF h1 h2]
  from w sup obtain t where t: "reference_to_query example_alignment = Inr t" by blast
  from w t have "length t = nat (r_en example_alignment - r_st example_alignment) + 1" by blast
  then have len: "length t = 6" by (simp only: n)
  from w t have all: "\<And>k. k < length t \<Longrightarrow> t ! k \<noteq> None
          \<and> int k \<in> set (snd (reference_to_query_traced example_alignment))"
    by blast
  from w have bnd: "\<And>i. i \<in> set (snd (reference_to_query_traced example_alignment))
      \<Longrightarrow> 0 \<le> i \<and> i \<le> 5"
    using n(2) by auto
  have "None \<notin> set t" using all by (metis in_set_conv_nth)
  moreover have "set (snd (reference_to_query_traced example_alignment)) = {0..5}"
  proof (intro equalityI subsetI)
    fix i assume "i \<in> set (snd (reference_to_query_traced example_alignment))"
    with bnd show "i \<in> {0..5}" by simp
  next
    fix i :: int assume "i \<in> {0..5}"
    then have "nat i < length t" "int (nat i) = i" unfolding len by auto
    with all [of "nat i"] show "i \<in> set (snd (reference_to_query_traced example_alignment))"
      by simp
  qed
  ultimately show ?thesis using h1 h2 t len by blast
qed

section \<open>Properties of the move-table mapping\<close>

lemma filter_index_length:
  "length (filter (\<lambda>i. P (xs ! i)) [0..<length xs]) = length (filter P xs)"
proof (induction xs rule: rev_induct)
  case Nil
  then show ?case by simp
next
  case (snoc x xs)
  have "filter (\<lambda>i. P ((xs @ [x]) ! i)) [0..<length xs] = filter (\<lambda>i. P (xs ! i)) [0..<length xs]"
    by (rule filter_cong) (simp_all add: nth_append)
  with snoc show ?case by simp
qed

lemma nonzero_flags:
  assumes "list_all (\<lambda>f. f = 0 \<or> f = 1) xs"
  shows "nonzero xs = filter (\<lambda>i. xs ! i = 1) [0..<length xs]"
  unfolding nonzero_def
proof (rule filter_cong [OF refl])
  fix i assume "i \<in> set [0..<length xs]"
  then have "xs ! i \<in> set xs" by simp
  with assms have "xs ! i = 0 \<or> xs ! i = 1" by (simp add: list_all_iff)
  then show "(xs ! i \<noteq> 0) = (xs ! i = 1)" by auto
qed

lemma count_flags: "length (filter (\<lambda>i. xs ! i = (1::int)) [0..<length xs]) = count_list xs 1"
proof -
  have "(\<lambda>i. xs ! i = 1) = (\<lambda>i. (=) 1 (xs ! i))" by auto
  then show ?thesis
    by (simp only: filter_index_length [of "(=) 1"] count_list_eq_length_filter)
qed

lemma sint_affine:
  assumes "fits_int64 (int i * sint b + sint c)"
  shows "sint (of_nat i * b + c :: 64 word) = int i * sint b + sint c"
proof -
  have "of_nat i * b + c = (word_of_int (int i * sint b + sint c) :: 64 word)"
    by simp
  then have "sint (of_nat i * b + c) = signed_take_bit 63 (int i * sint b + sint c)"
    by (simp only: sint_sbintrunc') simp
  also have "\<dots> = int i * sint b + sint c"
    using assms by (intro signed_take_bit_int_eq_self) (simp_all add: fits_int64_def)
  finally show ?thesis .
qed

text \<open>
  Claim C4. For a move table of 0/1 flags, \<open>sequence_to_signal\<close> returns
  \<open>blockIndex * blockStride + rawStartIndex\<close> over the block indices, in ascending order,
  whose flag is 1 in the move table extended with a trailing 1. The number of entries is
  the number of 1-flags of the extended table, one more than the number of called bases.
  The entries are \<open>int64\<close> values: an entry is the integer
  \<open>blockIndex * blockStride + rawStartIndex\<close> whenever that integer fits \<open>int64\<close>. For the
  move table \<open>[0,1,0,0,1,1]\<close>, stride 10 and start 5 the result is \<open>[15,45,55,65]\<close>.
\<close>

theorem sequence_to_signal_blocks:
  assumes flags: "list_all (\<lambda>f. f = 0 \<or> f = 1) move_table"
  shows "sequence_to_signal move_table raw_start_idx block_stride
           = Inr (map (\<lambda>i. of_nat i * block_stride + raw_start_idx)
                   (filter (\<lambda>i. (move_table @ [1]) ! i = 1) [0..<length move_table + 1]))
     \<and> sorted_wrt (<) (filter (\<lambda>i. (move_table @ [1]) ! i = 1) [0..<length move_table + 1])
     \<and> length (filter (\<lambda>i. (move_table @ [1]) ! i = 1) [0..<length move_table + 1])
           = count_list (move_table @ [1]) 1
     \<and> count_list (move_table @ [1]) 1 = count_list move_table 1 + 1
     \<and> (\<forall>i. fits_int64 (int i * sint block_stride + sint raw_start_idx) \<longrightarrow>
           sint (of_nat i * block_stride + raw_start_idx)
             = int i * sint block_stride + sint raw_start_idx)
     \<and> sequence_to_signal [0, 1, 0, 0, 1, 1] 5 10 = Inr [15, 45, 55, 65]"
proof -
  have ext: "list_all (\<lambda>f. f = 0 \<or> f = 1) (move_table @ [1])" using flags by simp
  have a: "sequence_to_signal move_table raw_start_idx block_stride
           = Inr (map (\<lambda>i. of_nat i * block_stride + raw_start_idx)
                   (filter (\<lambda>i. (move_table @ [1]) ! i = 1) [0..<length move_table + 1]))"
    using nonzero_flags [OF ext] by (simp add: sequence_to_signal_def np_append_def)
  have b: "sorted_wrt (<) (filter (\<lambda>i. (move_table @ [1]) ! i = 1) [0..<length move_table + 1])"
    by (intro sorted_wrt_filter) (simp del: upt_Suc)
  have c: "length (filter (\<lambda>i. (move_table @ [1]) ! i = 1) [0..<length move_table + 1])
           = count_list (move_table @ [1]) 1"
    using count_flags [of "move_table @ [1]"] by simp
  have d: "count_list (move_table @ [1]) 1 = count_list move_table 1 + 1"
    by (simp add: count_list_eq_length_filter)
  have e: "\<forall>i. fits_int64 (int i * sint block_stride + sint raw_start_idx) \<longrightarrow>
           sint (of_nat i * block_stride + raw_start_idx)
             = int i * sint block_stride + sint raw_start_idx"
    using sint_affine by blast
  have f: "sequence_to_signal [0, 1, 0, 0, 1, 1] 5 10 = Inr [15, 45, 55, 65]"
    by (simp add: sequence_to_signal_def np_append_def nonzero_def upt_conv_Cons)
  show ?thesis by (intro conjI a b c d e f)
qed

text \<open>
  The theorem at the move table \<open>[1,0,1]\<close>, start 100, stride 5; the last entry read as an
  integer is \<open>3 * 5 + 100\<close>.
\<close>

theorem sequence_to_signal_blocks_witness:
  "list_all (\<lambda>f. f = 0 \<or> f = 1) [1, 0, 1 :: int]
   \<and> fits_int64 (int 3 * sint (5 :: 64 word) + sint (100 :: 64 word))
   \<and> sequence_to_signal [1, 0, 1] 100 5 = Inr [100, 110, 115]
   \<and> sint (115 :: 64 word) = 115
   \<and> count_list [1, 0, 1, 1 :: int] 1 = 3"
proof -
  have h: "list_all (\<lambda>f. f = 0 \<or> f = 1) [1, 0, 1 :: int]" by simp
  have g: "fits_int64 (int 3 * sint (5 :: 64 word) + sint (100 :: 64 word))"
    by (simp add: fits_int64_def)
  note th = sequence_to_signal_blocks [OF h, of 100 5]
  from th have "sequence_to_signal [1, 0, 1] 100 5
      = Inr (map (\<lambda>i. of_nat i * 5 + 100) (filter (\<lambda>i. ([1, 0, 1] @ [1 :: int]) ! i = 1) [0..<length [1, 0, 1 :: int] + 1]))"
    by simp
  then have r: "sequence_to_signal [1, 0, 1] 100 5 = Inr [100, 110, 115]"
    by (simp add: upt_conv_Cons)
  from th have "count_list ([1, 0, 1] @ [1 :: int]) 1 = count_list [1, 0, 1 :: int] 1 + 1"
    by simp
  then have c: "count_list [1, 0, 1, 1 :: int] 1 = 3" by simp
  from th g have "sint (of_nat 3 * 5 + 100 :: 64 word) = int 3 * sint (5 :: 64 word) + sint (100 :: 64 word)"
    by blast
  then have s: "sint (115 :: 64 word) = 115" by simp
  show ?thesis by (intro conjI h g r s c)
qed

text \<open>
  Claim C7, as stated, requires a failure for a stride of 0 and a negative start index.
  The function returns a mapping for them.
\<close>

theorem sequence_to_signal_invalid_counterexample:
  "sint (0 :: 64 word) \<le> 0 \<and> sint (- 5 :: 64 word) < 0
   \<and> sequence_to_signal [1] (- 5) 0 = Inr [- 5, - 5]"
  by (simp add: sequence_to_signal_def np_append_def nonzero_def upt_conv_Cons)

text \<open>
  Claim C7, amended. \<open>sequence_to_signal\<close> validates neither argument: for every call,
  also with a block stride that is zero or negative or a negative raw start index, it
  returns without an error one entry per non-zero block of the extended move table, the
  \<open>int64\<close> value \<open>blockIndex * blockStride + rawStartIndex\<close>; with a stride of 0 every
  entry is the raw start index.
\<close>

theorem sequence_to_signal_no_validation:
  "\<exists>out. sequence_to_signal move_table raw_start_idx block_stride = Inr out
     \<and> out = map (\<lambda>i. of_nat i * block_stride + raw_start_idx) (nonzero (move_table @ [1]))
     \<and> length out = length (nonzero move_table) + 1
     \<and> (block_stride = 0 \<longrightarrow> (\<forall>x\<in>set out. x = raw_start_idx))"
proof -
  have "filter (\<lambda>i. (move_table @ [1]) ! i \<noteq> 0) [0..<length move_table]
      = filter (\<lambda>i. move_table ! i \<noteq> 0) [0..<length move_table]"
    by (rule filter_cong) (simp_all add: nth_append)
  then have "length (nonzero (move_table @ [1])) = length (nonzero move_table) + 1"
    by (simp add: nonzero_def)
  then show ?thesis by (auto simp: sequence_to_signal_def np_append_def)
qed

text \<open>The theorem at the move table \<open>[0,1]\<close>, start -3, stride 0.\<close>

theorem sequence_to_signal_no_validation_witness:
  "\<exists>out. sequence_to_signal [0, 1] (- 3) 0 = Inr out \<and> length out = 2 \<and> set out \<subseteq> {- 3}"
proof -
  from sequence_to_signal_no_validation [of "[0, 1]" "- 3" 0]
  obtain out where r: "sequence_to_signal [0, 1] (- 3) 0 = Inr out"
    and l: "length out = length (nonzero [0, 1]) + 1"
    and e: "\<forall>x\<in>set out. x = - 3"
    by blast
  from l have "length out = 2" by (simp add: nonzero_def upt_conv_Cons)
  with r e show ?thesis by blast
qed

section \<open>Properties of the signal normaliser and of the FASTQ parser\<close>

lemma np_median_Some: "xs \<noteq> [] \<Longrightarrow> \<exists>m. np_median xs = Some m"
  by (simp add: np_median_def Let_def)

lemma normalize_mad_unfold:
  assumes med: "np_median signal = Some med" and m: "mad signal = Some m"
  shows "normalize_mad signal scale_factor
     = Inr (map (\<lambda>x. np_divide (x - med) (scale_of scale_factor * m)) signal)"
proof -
  from m med have "np_median (map abs (map (\<lambda>x. x - med) signal)) = Some m"
    by (simp add: mad_def comp_def)
  with med show ?thesis
    by (simp add: normalize_mad_def scale_of_def comp_def)
qed

text \<open>
  Claim C6. For a non-empty signal whose median absolute deviation is not 0, and any scale
  factor, \<open>normalize_mad\<close> returns a sequence of the same length whose element \<open>i\<close> is
  \<open>(signal[i] - median) / (scaleFactor * MAD)\<close>, the MAD being the median of the absolute
  deviations from the median. The scale factor \<open>None\<close> counts as 1, the default is 1.4826,
  and the signal \<open>[1,2,3,4,5]\<close> with scale factor 1 gives \<open>[-2,-1,0,1,2]\<close>. (Arithmetic on
  the samples is exact in the model; a scale factor of 0 gives the non-finite quotient.)
\<close>

theorem normalize_mad_formula:
  assumes ne: "signal \<noteq> []" and nz: "mad signal \<noteq> Some 0"
  shows "\<exists>med m out. np_median signal = Some med \<and> mad signal = Some m \<and> m \<noteq> 0
      \<and> normalize_mad signal scale_factor = Inr out
      \<and> length out = length signal
      \<and> (\<forall>i<length signal.
            out ! i = np_divide (signal ! i - med) (scale_of scale_factor * m))
      \<and> (scale_of scale_factor \<noteq> 0 \<longrightarrow>
           (\<forall>i<length signal.
              out ! i = Finite ((signal ! i - med) / (scale_of scale_factor * m))))
      \<and> scale_of None = 1
      \<and> normalize_mad_default signal = normalize_mad signal (Some 1.4826)
      \<and> normalize_mad [1, 2, 3, 4, 5] (Some 1)
            = Inr [Finite (- 2), Finite (- 1), Finite 0, Finite 1, Finite 2]"
proof -
  from ne obtain med where med: "np_median signal = Some med"
    using np_median_Some by blast
  from ne have "map (\<lambda>x. \<bar>x - med\<bar>) signal \<noteq> []" by simp
  then obtain m where "np_median (map (\<lambda>x. \<bar>x - med\<bar>) signal) = Some m"
    using np_median_Some by blast
  with med have m: "mad signal = Some m" by (simp add: mad_def)
  with nz have m0: "m \<noteq> 0" by auto
  define out where "out = map (\<lambda>x. np_divide (x - med) (scale_of scale_factor * m)) signal"
  have res: "normalize_mad signal scale_factor = Inr out"
    unfolding out_def using med m by (rule normalize_mad_unfold)
  have len: "length out = length signal" by (simp add: out_def)
  have el: "\<forall>i<length signal. out ! i = np_divide (signal ! i - med) (scale_of scale_factor * m)"
    by (simp add: out_def)
  have fin: "scale_of scale_factor \<noteq> 0 \<longrightarrow>
      (\<forall>i<length signal. out ! i = Finite ((signal ! i - med) / (scale_of scale_factor * m)))"
    using m0 by (simp add: out_def np_divide_def)
  have s1: "scale_of None = 1" by (simp add: scale_of_def)
  have dflt: "normalize_mad_default signal = normalize_mad signal (Some 1.4826)"
    by (simp add: normalize_mad_default_def)
  have ex: "normalize_mad [1, 2, 3, 4, 5] (Some 1)
      = Inr [Finite (- 2), Finite (- 1), Finite 0, Finite 1, Finite 2]"
    by (simp add: normalize_mad_def np_median_def np_divide_def Let_def)
  show ?thesis
    by (intro exI [of _ med] exI [of _ m] exI [of _ out] conjI med m m0 res len el fin s1 dflt ex)
qed

text \<open>The theorem at the signal \<open>[2,4,6,8]\<close> (median 5, MAD 2) without a scale factor.\<close>

theorem normalize_mad_formula_witness:
  "[2, 4, 6, 8 :: real] \<noteq> [] \<and> mad [2, 4, 6, 8] \<noteq> Some 0
   \<and> normalize_mad [2, 4, 6, 8] None = Inr [Finite (- 3 / 2), Finite (- 1 / 2), Finite (1 / 2), Finite (3 / 2)]"
proof -
  have med: "np_median [2, 4, 6, 8] = Some 5"
    by (simp add: np_median_def Let_def)
  have m: "mad [2, 4, 6, 8] = Some 2"
    by (simp add: mad_def med) (simp add: np_median_def Let_def)
  have h1: "[2, 4, 6, 8 :: real] \<noteq> []" by simp
  have h2: "mad [2, 4, 6, 8] \<noteq> Some 0" by (simp add: m)
  from normalize_mad_formula [OF h1 h2, of None]
  obtain med' m' out where a: "np_median [2, 4, 6, 8] = Some med'" "mad [2, 4, 6, 8] = Some m'"
    and r: "normalize_mad [2, 4, 6, 8] None = Inr out" and l: "length out = length [2, 4, 6, 8 :: real]"
    and e: "\<forall>i<length [2, 4, 6, 8 :: real].
            out ! i = np_divide ([2, 4, 6, 8] ! i - med') (scale_of None * m')"
    by blast
  from a med m have mm: "med' = 5" "m' = 2" by simp_all
  have "out = [Finite (- 3 / 2), Finite (- 1 / 2), Finite (1 / 2), Finite (3 / 2)]"
    using l e by (simp add: list_eq_iff_nth_eq mm scale_of_def np_divide_def less_Suc_eq)
  with r h1 h2 show ?thesis by simp
qed

text \<open>
  Claim C5, as stated, requires an error for the empty signal and for a signal whose MAD
  is 0, and excludes \<open>nan\<close> from every result. The constant signal \<open>[7,7,7]\<close> is returned
  as three \<open>nan\<close>, the empty signal as the empty sequence.
\<close>

theorem normalize_mad_degenerate_counterexample:
  "mad [7, 7, 7] = Some 0
   \<and> normalize_mad_default [7, 7, 7] = Inr [NaN, NaN, NaN]
   \<and> normalize_mad_default [] = Inr []"
  by (simp add: normalize_mad_default_def normalize_mad_def mad_def np_median_def
      np_divide_def Let_def)

text \<open>
  Claim C5, amended. \<open>normalize_mad\<close> raises no error on any signal: the empty signal
  gives the empty sequence, and a non-empty signal whose MAD is 0 gives \<open>nan\<close> at every
  sample equal to the median and an infinity at every other sample.
\<close>

theorem normalize_mad_no_errors:
  "(\<exists>out. normalize_mad signal scale_factor = Inr out)
   \<and> normalize_mad [] scale_factor = Inr []
   \<and> (signal \<noteq> [] \<and> mad signal = Some 0 \<longrightarrow>
        (\<exists>med. np_median signal = Some med
           \<and> normalize_mad signal scale_factor
               = Inr (map (\<lambda>x. if x = med then NaN else Infinite) signal)))"
proof -
  have a: "\<exists>out. normalize_mad signal scale_factor = Inr out"
    by (simp add: normalize_mad_def Let_def split: option.split)
  have b: "normalize_mad [] scale_factor = Inr []"
    by (simp add: normalize_mad_def np_median_def)
  have c: "signal \<noteq> [] \<and> mad signal = Some 0 \<longrightarrow>
        (\<exists>med. np_median signal = Some med
           \<and> normalize_mad signal scale_factor
               = Inr (map (\<lambda>x. if x = med then NaN else Infinite) signal))"
  proof
    assume h: "signal \<noteq> [] \<and> mad signal = Some 0"
    then obtain med where med: "np_median signal = Some med"
      using np_median_Some by blast
    from h have m: "mad signal = Some 0" by simp
    have "normalize_mad signal scale_factor
        = Inr (map (\<lambda>x. if x = med then NaN else Infinite) signal)"
      by (simp add: normalize_mad_unfold [OF med m] np_divide_def)
    with med show "\<exists>med. np_median signal = Some med
           \<and> normalize_mad signal scale_factor
               = Inr (map (\<lambda>x. if x = med then NaN else Infinite) signal)"
      by blast
  qed
  show ?thesis by (intro conjI a b c)
qed

text \<open>The theorem at the signal \<open>[1,5,5,5,9]\<close>, whose MAD is 0.\<close>

theorem normalize_mad_no_errors_witness:
  "[1, 5, 5, 5, 9 :: real] \<noteq> [] \<and> mad [1, 5, 5, 5, 9] = Some 0
   \<and> normalize_mad [1, 5, 5, 5, 9] (Some 2) = Inr [Infinite, NaN, NaN, NaN, Infinite]"
proof -
  have med: "np_median [1, 5, 5, 5, 9] = Some 5"
    by (simp add: np_median_def Let_def)
  have m: "mad [1, 5, 5, 5, 9] = Some 0"
    by (simp add: mad_def med) (simp add: np_median_def Let_def)
  have h: "[1, 5, 5, 5, 9 :: real] \<noteq> [] \<and> mad [1, 5, 5, 5, 9] = Some 0"
    using m by simp
  from normalize_mad_no_errors [of "[1, 5, 5, 5, 9]" "Some 2"] h
  obtain med' where "np_median [1, 5, 5, 5, 9] = Some med'"
    and r: "normalize_mad [1, 5, 5, 5, 9] (Some 2)
        = Inr (map (\<lambda>x. if x = med' then NaN else Infinite) [1, 5, 5, 5, 9])"
    by blast
  with med have "med' = 5" by simp
  with r h show ?thesis by simp
qed

text \<open>
  Claim C9 says that \<open>parse_fastq\<close> returns the qualities \<open>ord(c) - 33\<close> as the elements
  of an array. The source passes that list to the constructor \<open>np.ndarray\<close>, which reads
  it as a shape: the record with the qualities 2 and 3 yields an uninitialised array of
  shape \<open>(2, 3)\<close>, and a record of 33 bases raises ValueError.
\<close>

theorem parse_fastq_shape:
  "parse_fastq short_read = Inr (''AC'', \<lparr>shape = [2, 3], elements = replicate 6 None\<rparr>)
   \<and> parse_fastq long_read = Inl ValueError"
  by (simp add: short_read_def long_read_def fastq_lines_def parse_fastq_def strip_def
      is_space_def getitem_def np_ndarray_def ord_def)

section \<open>Properties of the motif index\<close>

lemma scan_sound: "i \<in> set (scan p s k) \<Longrightarrow> k \<le> i \<and> occurs p s i"
proof (induction p s k rule: scan.induct)
  case (1 p s pos)
  show ?case
  proof (cases "length s < pos")
    case True
    with 1 show ?thesis by (simp add: scan.simps [of p s pos])
  next
    case le: False
    show ?thesis
    proof (cases "match_here p (drop pos s)")
      case True
      from 1(3) le True have "i = pos \<or> i \<in> set (scan p s (if p = [] then pos + 1 else pos + length p))"
        by (simp add: scan.simps [of p s pos])
      then show ?thesis
      proof
        assume "i = pos"
        with le True show ?thesis by (simp add: occurs_def)
      next
        assume "i \<in> set (scan p s (if p = [] then pos + 1 else pos + length p))"
        from 1(1) [OF le True this] show ?thesis by (auto split: if_splits)
      qed
    next
      case False
      from 1(3) le False have "i \<in> set (scan p s (pos + 1))"
        by (simp add: scan.simps [of p s pos])
      from 1(2) [OF le False this] show ?thesis by auto
    qed
  qed
qed

lemma scan_complete:
  "occurs p s i \<Longrightarrow> k \<le> i \<Longrightarrow>
   i \<in> set (scan p s k) \<or> (\<exists>j\<in>set (scan p s k). j < i \<and> i < j + length p)"
proof (induction p s k rule: scan.induct)
  case (1 p s pos)
  from 1(3) have il: "i \<le> length s" and mi: "match_here p (drop i s)"
    by (simp_all add: occurs_def)
  from il 1(4) have le: "\<not> length s < pos" by simp
  show ?case
  proof (cases "match_here p (drop pos s)")
    case True
    define nxt where "nxt = (if p = [] then pos + 1 else pos + length p)"
    have sc: "scan p s pos = pos # scan p s nxt"
      using le True by (simp add: scan.simps [of p s pos] nxt_def)
    have nx: "nxt = pos + 1 \<or> (0 < length p \<and> nxt = pos + length p)"
      by (cases p) (simp_all add: nxt_def)
    consider "i = pos" | "pos < i" "i < pos + length p" | "nxt \<le> i"
      using "1.prems"(2) nx by linarith
    then show ?thesis
    proof cases
      case 1
      then show ?thesis by (simp add: sc)
    next
      case 2
      then show ?thesis by (auto simp: sc)
    next
      case 3
      from "1.IH"(1) [OF le True "1.prems"(1)] 3
      have "i \<in> set (scan p s nxt) \<or> (\<exists>j\<in>set (scan p s nxt). j < i \<and> i < j + length p)"
        by (simp add: nxt_def)
      then show ?thesis by (auto simp: sc)
    qed
  next
    case False
    have sc: "scan p s pos = scan p s (pos + 1)"
      using le False by (simp add: scan.simps [of p s pos])
    from False mi have "i \<noteq> pos" by auto
    with 1(4) have "pos + 1 \<le> i" by simp
    from "1.IH"(2) [OF le False "1.prems"(1) this] show ?thesis by (simp add: sc)
  qed
qed

lemma scan_spaced:
  "sorted_wrt (\<lambda>a b. a < b \<and> a + length p \<le> b) (scan p s k)"
proof (induction p s k rule: scan.induct)
  case (1 p s pos)
  show ?case
  proof (cases "length s < pos")
    case True
    then show ?thesis by (simp add: scan.simps [of p s pos])
  next
    case le: False
    show ?thesis
    proof (cases "match_here p (drop pos s)")
      case True
      define nxt where "nxt = (if p = [] then pos + 1 else pos + length p)"
      have sc: "scan p s pos = pos # scan p s nxt"
        using le True by (simp add: scan.simps [of p s pos] nxt_def)
      have nx: "nxt = pos + 1 \<and> length p = 0 \<or> (0 < length p \<and> nxt = pos + length p)"
        by (cases p) (simp_all add: nxt_def)
      have "pos < b \<and> pos + length p \<le> b" if "b \<in> set (scan p s nxt)" for b
        using scan_sound [OF that] nx by linarith
      with 1(1) [OF le True] show ?thesis by (simp add: sc nxt_def)
    next
      case False
      with le 1(2) show ?thesis by (simp add: scan.simps [of p s pos])
    qed
  qed
qed

lemma finditer_no_overlap:
  assumes j: "j \<in> set (finditer p s)" and i: "i \<in> set (finditer p s)" and lt: "j < i"
  shows "j + length p \<le> i"
proof -
  define xs where "xs = finditer p s"
  have srt: "sorted_wrt (\<lambda>a b. a < b \<and> a + length p \<le> b) xs"
    unfolding xs_def finditer_def by (rule scan_spaced)
  from j i obtain m n where m: "m < length xs" "xs ! m = j" and n: "n < length xs" "xs ! n = i"
    unfolding xs_def [symmetric] by (auto simp: in_set_conv_nth)
  consider "m < n" | "m = n" | "n < m" by linarith
  then show ?thesis
  proof cases
    case 1
    from sorted_wrt_nth_less [OF srt 1 n(1)] m n show ?thesis by simp
  next
    case 2
    with m n lt show ?thesis by simp
  next
    case 3
    from sorted_wrt_nth_less [OF srt 3 m(1)] m n lt show ?thesis by simp
  qed
qed

lemma finditer_sound: "i \<in> set (finditer p s) \<Longrightarrow> occurs p s i"
  using scan_sound [of i p s 0] by (simp add: finditer_def)

lemma finditer_complete:
  "occurs p s i \<Longrightarrow>
   i \<in> set (finditer p s) \<or> (\<exists>j\<in>set (finditer p s). j < i \<and> i < j + length p)"
  using scan_complete [of p s i 0] by (simp add: finditer_def)

lemma dom_index_records:
  "dom (index_records records motif rel_idx positions) = dom positions \<union> name ` set records"
  by (induction records arbitrary: positions) auto

lemma index_records_other:
  "c \<notin> name ` set records \<Longrightarrow> index_records records motif rel_idx positions c = positions c"
  by (induction records arbitrary: positions) auto

lemma index_records_lookup:
  "distinct (map name records) \<Longrightarrow> r \<in> set records \<Longrightarrow>
   index_records records motif rel_idx positions (name r) = Some (contig_positions motif rel_idx r)"
proof (induction records arbitrary: positions)
  case Nil
  then show ?case by simp
next
  case (Cons x records)
  show ?case
  proof (cases "r = x")
    case True
    with Cons.prems have "name r \<notin> name ` set records" by auto
    with True show ?thesis by (simp add: index_records_other)
  next
    case False
    with Cons show ?thesis by simp
  qed
qed

lemma build_reference_idx_lookup:
  "distinct (map name records) \<Longrightarrow> r \<in> set records \<Longrightarrow>
   build_reference_idx records motif rel_idx (name r)
     = Some ((\<lambda>start. int start + rel_idx) ` set (finditer motif (seq r)),
             (\<lambda>start. int (length (seq r)) - (int start + rel_idx) - 1)
               ` set (finditer motif (reverse_complement (seq r))))"
  by (simp add: build_reference_idx_def index_records_lookup contig_positions_def Let_def)

text \<open>
  Claim C3. Every contig of the input is a key of the result. With contig names that are
  unique, a contig of length \<open>L\<close> is mapped to the pair of the set of
  \<open>matchStart + relIdx\<close> over the matches of the scan in its sequence and the set of
  \<open>L - (matchStart + relIdx) - 1\<close> over the matches of the scan in its reverse complement;
  a contig without a match is mapped to a pair of empty sets.
\<close>

theorem build_reference_idx_positions:
  "dom (build_reference_idx records motif rel_idx) = name ` set records
   \<and> (distinct (map name records) \<and> r \<in> set records \<longrightarrow>
        build_reference_idx records motif rel_idx (name r)
          = Some ((\<lambda>start. int start + rel_idx) ` set (finditer motif (seq r)),
                  (\<lambda>start. int (length (seq r)) - (int start + rel_idx) - 1)
                    ` set (finditer motif (reverse_complement (seq r)))))
   \<and> (distinct (map name records) \<and> r \<in> set records
        \<and> finditer motif (seq r) = [] \<and> finditer motif (reverse_complement (seq r)) = [] \<longrightarrow>
        build_reference_idx records motif rel_idx (name r) = Some ({}, {}))"
proof -
  have a: "dom (build_reference_idx records motif rel_idx) = name ` set records"
    by (simp add: build_reference_idx_def dom_index_records)
  have b: "distinct (map name records) \<and> r \<in> set records \<longrightarrow>
        build_reference_idx records motif rel_idx (name r)
          = Some ((\<lambda>start. int start + rel_idx) ` set (finditer motif (seq r)),
                  (\<lambda>start. int (length (seq r)) - (int start + rel_idx) - 1)
                    ` set (finditer motif (reverse_complement (seq r))))"
    using build_reference_idx_lookup by blast
  have c: "distinct (map name records) \<and> r \<in> set records
        \<and> finditer motif (seq r) = [] \<and> finditer motif (reverse_complement (seq r)) = [] \<longrightarrow>
        build_reference_idx records motif rel_idx (name r) = Some ({}, {})"
    by (simp add: build_reference_idx_lookup)
  show ?thesis by (intro conjI a b c)
qed

lemma sample_contigs_facts:
  "distinct (map name sample_contigs)"
  "\<lparr>name = ''chr1'', seq = ''TCGTA''\<rparr> \<in> set sample_contigs"
  "\<lparr>name = ''chr2'', seq = ''acgac''\<rparr> \<in> set sample_contigs"
  "\<lparr>name = ''chr3'', seq = ''TTTT''\<rparr> \<in> set sample_contigs"
  "reverse_complement ''TCGTA'' = ''TACGA''"
  "reverse_complement ''acgac'' = ''gtcgt''"
  "reverse_complement ''TTTT'' = ''AAAA''"
  "finditer (literal ''ACGA'') ''TCGTA'' = []"
  "finditer (literal ''ACGA'') ''TACGA'' = [1]"
  "finditer (literal ''ACGA'') ''acgac'' = [0]"
  "finditer (literal ''ACGA'') ''gtcgt'' = []"
  "finditer (literal ''ACGA'') ''TTTT'' = []"
  "finditer (literal ''ACGA'') ''AAAA'' = []"
  by (simp_all add: sample_contigs_def finditer_def scan.simps literal_def lower_def
      reverse_complement_def complement_def)

text \<open>
  The theorem at the contigs \<open>TCGTA\<close>, \<open>acgac\<close> and \<open>TTTT\<close> with the motif \<open>ACGA\<close> and
  relative index 0: the first contig has its only match in the reverse complement, at
  position \<open>5 - 1 - 1\<close>; the second is matched without regard to case.
\<close>

theorem build_reference_idx_positions_witness:
  "dom (build_reference_idx sample_contigs (literal ''ACGA'') 0) = {''chr1'', ''chr2'', ''chr3''}
   \<and> build_reference_idx sample_contigs (literal ''ACGA'') 0 ''chr1'' = Some ({}, {3})
   \<and> build_reference_idx sample_contigs (literal ''ACGA'') 0 ''chr2'' = Some ({0}, {})
   \<and> build_reference_idx sample_contigs (literal ''ACGA'') 0 ''chr3'' = Some ({}, {})"
proof -
  note f = sample_contigs_facts
  have a: "dom (build_reference_idx sample_contigs (literal ''ACGA'') 0) = {''chr1'', ''chr2'', ''chr3''}"
    using build_reference_idx_positions [of sample_contigs "literal ''ACGA''" 0]
    by (auto simp: sample_contigs_def)
  have b: "build_reference_idx sample_contigs (literal ''ACGA'') 0 ''chr1'' = Some ({}, {3})"
    using build_reference_idx_positions [of sample_contigs "literal ''ACGA''" 0
        "\<lparr>name = ''chr1'', seq = ''TCGTA''\<rparr>"] f
    by simp
  have c: "build_reference_idx sample_contigs (literal ''ACGA'') 0 ''chr2'' = Some ({0}, {})"
    using build_reference_idx_positions [of sample_contigs "literal ''ACGA''" 0
        "\<lparr>name = ''chr2'', seq = ''acgac''\<rparr>"] f
    by simp
  have d: "build_reference_idx sample_contigs (literal ''ACGA'') 0 ''chr3'' = Some ({}, {})"
    using build_reference_idx_positions [of sample_contigs "literal ''ACGA''" 0
        "\<lparr>name = ''chr3'', seq = ''TTTT''\<rparr>"] f
    by simp
  show ?thesis by (intro conjI a b c d)
qed

lemma overlap_contig_facts:
  "distinct (map name overlap_contig)"
  "\<lparr>name = ''chr'', seq = ''AAAC''\<rparr> \<in> set overlap_contig"
  "reverse_complement ''AAAC'' = ''GTTT''"
  "finditer (literal ''AA'') ''AAAC'' = [0]"
  "finditer (literal ''AA'') ''GTTT'' = []"
  "finditer (literal ''TT'') ''AAAC'' = []"
  "finditer (literal ''TT'') ''GTTT'' = [1]"
  "occurs (literal ''AA'') ''AAAC'' 0"
  "occurs (literal ''AA'') ''AAAC'' 1"
  "occurs (literal ''TT'') ''GTTT'' 1"
  "occurs (literal ''TT'') ''GTTT'' 2"
  "\<not> occurs (literal ''TT'') ''GTTT'' 0"
  by (simp_all add: overlap_contig_def finditer_def scan.simps literal_def lower_def
      reverse_complement_def complement_def occurs_def)

text \<open>
  Claim C1, as stated, has a position recorded for every occurrence of the motif,
  overlapping ones included. In \<open>AAAC\<close> the motif \<open>AA\<close> occurs at 0 and at 1, and the forward
  set holds 0 only. In its reverse complement \<open>GTTT\<close> the motif \<open>TT\<close> occurs at 1 and at 2,
  and the reverse set holds only \<open>4 - 1 - 1\<close>, the position of the first.
\<close>

theorem build_reference_idx_overlap_counterexample:
  "occurs (literal ''AA'') ''AAAC'' 0 \<and> occurs (literal ''AA'') ''AAAC'' 1
   \<and> build_reference_idx overlap_contig (literal ''AA'') 0 ''chr'' = Some ({0}, {})
   \<and> reverse_complement ''AAAC'' = ''GTTT''
   \<and> occurs (literal ''TT'') ''GTTT'' 1 \<and> occurs (literal ''TT'') ''GTTT'' 2
   \<and> build_reference_idx overlap_contig (literal ''TT'') 0 ''chr'' = Some ({}, {2})"
proof -
  note f = overlap_contig_facts
  have a: "build_reference_idx overlap_contig (literal ''AA'') 0 ''chr'' = Some ({0}, {})"
    using build_reference_idx_lookup [OF f(1,2), of "literal ''AA''" 0]
    by (simp add: f(3,4,5))
  have b: "build_reference_idx overlap_contig (literal ''TT'') 0 ''chr'' = Some ({}, {2})"
    using build_reference_idx_lookup [OF f(1,2), of "literal ''TT''" 0]
    by (simp add: f(3,6,7))
  show ?thesis by (intro conjI f(8) f(9) a f(3) f(10) f(11) b)
qed


text \<open>
  Claim C1, amended. With contig names that are unique, every recorded position comes from
  an occurrence of the motif; every occurrence is recorded unless it starts inside an
  occurrence that is recorded and starts earlier; and an occurrence that starts inside a
  recorded occurrence that starts earlier is not recorded. So of overlapping occurrences
  only the first is recorded: the scan resumes at the end of each match. The same holds for
  the scan of the reverse complement, with the mirrored positions.
\<close>

theorem build_reference_idx_occurrences:
  assumes d: "distinct (map name records)" and r: "r \<in> set records"
  shows "\<exists>fwd rev. build_reference_idx records motif rel_idx (name r) = Some (fwd, rev)
     \<and> (\<forall>x\<in>fwd. \<exists>i. occurs motif (seq r) i \<and> x = int i + rel_idx)
     \<and> (\<forall>i. occurs motif (seq r) i \<longrightarrow>
           int i + rel_idx \<in> fwd
           \<or> (\<exists>j. int j + rel_idx \<in> fwd \<and> occurs motif (seq r) j
                  \<and> j < i \<and> i < j + length motif))
     \<and> (\<forall>i j. int j + rel_idx \<in> fwd \<and> j < i \<and> i < j + length motif \<longrightarrow>
           int i + rel_idx \<notin> fwd)
     \<and> (\<forall>x\<in>rev. \<exists>i. occurs motif (reverse_complement (seq r)) i
                  \<and> x = int (length (seq r)) - (int i + rel_idx) - 1)
     \<and> (\<forall>i. occurs motif (reverse_complement (seq r)) i \<longrightarrow>
           int (length (seq r)) - (int i + rel_idx) - 1 \<in> rev
           \<or> (\<exists>j. int (length (seq r)) - (int j + rel_idx) - 1 \<in> rev
                  \<and> occurs motif (reverse_complement (seq r)) j
                  \<and> j < i \<and> i < j + length motif))
     \<and> (\<forall>i j. int (length (seq r)) - (int j + rel_idx) - 1 \<in> rev
                  \<and> j < i \<and> i < j + length motif \<longrightarrow>
           int (length (seq r)) - (int i + rel_idx) - 1 \<notin> rev)"
proof -
  define fwd where "fwd = (\<lambda>start. int start + rel_idx) ` set (finditer motif (seq r))"
  define rev where "rev = (\<lambda>start. int (length (seq r)) - (int start + rel_idx) - 1)
      ` set (finditer motif (reverse_complement (seq r)))"
  have fmem: "int i + rel_idx \<in> fwd \<longleftrightarrow> i \<in> set (finditer motif (seq r))" for i
    by (auto simp: fwd_def)
  have rmem: "int (length (seq r)) - (int i + rel_idx) - 1 \<in> rev
      \<longleftrightarrow> i \<in> set (finditer motif (reverse_complement (seq r)))" for i
    by (auto simp: rev_def)
  have res: "build_reference_idx records motif rel_idx (name r) = Some (fwd, rev)"
    unfolding fwd_def rev_def using d r by (rule build_reference_idx_lookup)
  have f1: "\<forall>x\<in>fwd. \<exists>i. occurs motif (seq r) i \<and> x = int i + rel_idx"
    unfolding fwd_def using finditer_sound by blast
  have f2: "\<forall>i. occurs motif (seq r) i \<longrightarrow>
        int i + rel_idx \<in> fwd
        \<or> (\<exists>j. int j + rel_idx \<in> fwd \<and> occurs motif (seq r) j \<and> j < i \<and> i < j + length motif)"
  proof (intro allI impI)
    fix i assume "occurs motif (seq r) i"
    from finditer_complete [OF this]
    consider "i \<in> set (finditer motif (seq r))"
      | j where "j \<in> set (finditer motif (seq r))" "j < i" "i < j + length motif"
      by blast
    then show "int i + rel_idx \<in> fwd
        \<or> (\<exists>j. int j + rel_idx \<in> fwd \<and> occurs motif (seq r) j \<and> j < i \<and> i < j + length motif)"
    proof cases
      case 1
      then show ?thesis by (simp add: fmem)
    next
      case 2
      from 2(1) have "int j + rel_idx \<in> fwd" by (simp add: fmem)
      with 2 finditer_sound [OF 2(1)] show ?thesis by blast
    qed
  qed
  have f3: "\<forall>i j. int j + rel_idx \<in> fwd \<and> j < i \<and> i < j + length motif \<longrightarrow>
        int i + rel_idx \<notin> fwd"
  proof (intro allI impI notI)
    fix i j
    assume h: "int j + rel_idx \<in> fwd \<and> j < i \<and> i < j + length motif"
      and "int i + rel_idx \<in> fwd"
    then have "j \<in> set (finditer motif (seq r))" "i \<in> set (finditer motif (seq r))"
      by (simp_all add: fmem)
    from finditer_no_overlap [OF this] h show False by simp
  qed
  have r1: "\<forall>x\<in>rev. \<exists>i. occurs motif (reverse_complement (seq r)) i
                  \<and> x = int (length (seq r)) - (int i + rel_idx) - 1"
    unfolding rev_def using finditer_sound by blast
  have r2: "\<forall>i. occurs motif (reverse_complement (seq r)) i \<longrightarrow>
        int (length (seq r)) - (int i + rel_idx) - 1 \<in> rev
        \<or> (\<exists>j. int (length (seq r)) - (int j + rel_idx) - 1 \<in> rev
               \<and> occurs motif (reverse_complement (seq r)) j \<and> j < i \<and> i < j + length motif)"
  proof (intro allI impI)
    fix i assume "occurs motif (reverse_complement (seq r)) i"
    from finditer_complete [OF this]
    consider "i \<in> set (finditer motif (reverse_complement (seq r)))"
      | j where "j \<in> set (finditer motif (reverse_complement (seq r)))" "j < i" "i < j + length motif"
      by blast
    then show "int (length (seq r)) - (int i + rel_idx) - 1 \<in> rev
        \<or> (\<exists>j. int (length (seq r)) - (int j + rel_idx) - 1 \<in> rev
               \<and> occurs motif (reverse_complement (seq r)) j \<and> j < i \<and> i < j + length motif)"
    proof cases
      case 1
      then show ?thesis by (simp add: rmem)
    next
      case 2
      from 2(1) have "int (length (seq r)) - (int j + rel_idx) - 1 \<in> rev" by (simp add: rmem)
      with 2 finditer_sound [OF 2(1)] show ?thesis by blast
    qed
  qed
  have r3: "\<forall>i j. int (length (seq r)) - (int j + rel_idx) - 1 \<in> rev
                  \<and> j < i \<and> i < j + length motif \<longrightarrow>
        int (length (seq r)) - (int i + rel_idx) - 1 \<notin> rev"
  proof (intro allI impI notI)
    fix i j
    assume h: "int (length (seq r)) - (int j + rel_idx) - 1 \<in> rev \<and> j < i \<and> i < j + length motif"
      and "int (length (seq r)) - (int i + rel_idx) - 1 \<in> rev"
    then have "j \<in> set (finditer motif (reverse_complement (seq r)))"
      "i \<in> set (finditer motif (reverse_complement (seq r)))"
      by (simp_all add: rmem)
    from finditer_no_overlap [OF this] h show False by simp
  qed
  show ?thesis
    by (intro exI [of _ fwd] exI [of _ rev] conjI res f1 f2 f3 r1 r2 r3)
qed


text \<open>
  The theorem at \<open>AAAC\<close>: with the motif \<open>AA\<close> the occurrence at 0 is recorded and the one
  at 1 is not; with the motif \<open>TT\<close> the occurrence at 1 of the reverse complement is
  recorded, as position 2, and the one at 2 is not, which would be position 1.
\<close>

theorem build_reference_idx_occurrences_witness:
  "distinct (map name overlap_contig)
   \<and> \<lparr>name = ''chr'', seq = ''AAAC''\<rparr> \<in> set overlap_contig
   \<and> (\<exists>fwd rev. build_reference_idx overlap_contig (literal ''AA'') 0 ''chr'' = Some (fwd, rev)
        \<and> 0 \<in> fwd \<and> 1 \<notin> fwd)
   \<and> (\<exists>fwd rev. build_reference_idx overlap_contig (literal ''TT'') 0 ''chr'' = Some (fwd, rev)
        \<and> 2 \<in> rev \<and> 1 \<notin> rev)"
proof -
  note f = overlap_contig_facts
  define r0 where "r0 = \<lparr>name = ''chr'', seq = ''AAAC''\<rparr>"
  have r0: "r0 \<in> set overlap_contig" using f(2) by (simp add: r0_def)
  have s0: "name r0 = ''chr''" "seq r0 = ''AAAC''" "reverse_complement ''AAAC'' = ''GTTT''"
    "int (length ''AAAC'') = 4"
    by (simp_all add: r0_def f(3))
  have a: "\<exists>fwd rev. build_reference_idx overlap_contig (literal ''AA'') 0 ''chr'' = Some (fwd, rev)
        \<and> 0 \<in> fwd \<and> 1 \<notin> fwd"
  proof -
    from build_reference_idx_occurrences [OF f(1) r0, of "literal ''AA''" 0]
    obtain fwd rev where res: "build_reference_idx overlap_contig (literal ''AA'') 0 (name r0) = Some (fwd, rev)"
      and c: "\<forall>i. occurs (literal ''AA'') (seq r0) i \<longrightarrow>
             int i + 0 \<in> fwd \<or> (\<exists>j. int j + 0 \<in> fwd \<and> occurs (literal ''AA'') (seq r0) j
                    \<and> j < i \<and> i < j + length (literal ''AA''))"
      and n: "\<forall>i j. int j + 0 \<in> fwd \<and> j < i \<and> i < j + length (literal ''AA'') \<longrightarrow> int i + 0 \<notin> fwd"
      by blast
    from c f(8) have "int 0 + 0 \<in> fwd \<or> (\<exists>j. int j + 0 \<in> fwd \<and> occurs (literal ''AA'') (seq r0) j
                    \<and> j < 0 \<and> 0 < j + length (literal ''AA''))"
      unfolding s0 by blast
    then have z: "0 \<in> fwd" by simp
    have "(1::nat) < 0 + length (literal ''AA'')" by (simp add: literal_def)
    with n [rule_format, of 0 1] z have "1 \<notin> fwd" by simp
    with res z show ?thesis unfolding s0 by blast
  qed
  have b: "\<exists>fwd rev. build_reference_idx overlap_contig (literal ''TT'') 0 ''chr'' = Some (fwd, rev)
        \<and> 2 \<in> rev \<and> 1 \<notin> rev"
  proof -
    from build_reference_idx_occurrences [OF f(1) r0, of "literal ''TT''" 0]
    obtain fwd rev where res: "build_reference_idx overlap_contig (literal ''TT'') 0 (name r0) = Some (fwd, rev)"
      and c: "\<forall>i. occurs (literal ''TT'') (reverse_complement (seq r0)) i \<longrightarrow>
             int (length (seq r0)) - (int i + 0) - 1 \<in> rev
             \<or> (\<exists>j. int (length (seq r0)) - (int j + 0) - 1 \<in> rev
                    \<and> occurs (literal ''TT'') (reverse_complement (seq r0)) j
                    \<and> j < i \<and> i < j + length (literal ''TT''))"
      and n: "\<forall>i j. int (length (seq r0)) - (int j + 0) - 1 \<in> rev
                    \<and> j < i \<and> i < j + length (literal ''TT'') \<longrightarrow>
             int (length (seq r0)) - (int i + 0) - 1 \<notin> rev"
      by blast
    from c f(10) have "4 - (int 1 + 0) - 1 \<in> rev
             \<or> (\<exists>j. 4 - (int j + 0) - 1 \<in> rev \<and> occurs (literal ''TT'') ''GTTT'' j
                    \<and> j < 1 \<and> 1 < j + length (literal ''TT''))"
      unfolding s0 by blast
    with f(12) have z: "2 \<in> rev" by auto
    have "(2::nat) < 1 + length (literal ''TT'')" by (simp add: literal_def)
    with n [rule_format, of 1 2] z have "1 \<notin> rev" unfolding s0 by simp
    with res z show ?thesis unfolding s0 by blast
  qed
  show ?thesis by (intro conjI f(1) f(2) a b)
qed

end
